theory Spec2Isabelle
  imports Main "HOL-Library.Multiset" "HOL-Library.Monad_Syntax"
begin

section \<open>Sequences, cursors and ranges\<close>

text \<open>
  The three sort templates of \<^verbatim>\<open>algorithm.cpp\<close> work on a pair of iterators into a
  container owned by the caller. The container is modelled as a list (the store), an
  iterator as a position in it, and every function returns the updated store. A range
  \<open>[first, lst)\<close> is valid when \<open>first \<le> lst \<le> length xs\<close>; on any other pair
  of iterators the C++ has undefined behaviour, and the theorems below say nothing.

  The templates compare elements with the element type's own \<^verbatim>\<open>operator<\<close> and nothing
  else, so the model is polymorphic in a type of class \<open>ord\<close> and uses only \<open>(<)\<close>.

  Loops that advance an iterator until it \<^emph>\<open>equals\<close> the end iterator
  (\<^verbatim>\<open>i != end\<close>) are modelled as partial functions into \<open>option\<close>: \<open>None\<close> is a
  call that does not return.
\<close>

definition range_of :: "'a list \<Rightarrow> nat \<Rightarrow> nat \<Rightarrow> 'a list" where
  "range_of xs first lst = take (lst - first) (drop first xs)"

definition unchanged_outside :: "'a list \<Rightarrow> 'a list \<Rightarrow> nat \<Rightarrow> nat \<Rightarrow> bool" where
  "unchanged_outside xs ys first lst \<longleftrightarrow>
     length ys = length xs \<and> (\<forall>j < length xs. j < first \<or> lst \<le> j \<longrightarrow> ys ! j = xs ! j)"

text \<open>
  What \<^verbatim>\<open>std::partition\<close> promises about the store \<open>ys\<close> and the iterator \<open>m\<close> it
  returns: the range is rearranged, nothing outside it is touched, the elements that
  satisfy the predicate are exactly those before \<open>m\<close>.
\<close>

definition partitioned ::
  "('a \<Rightarrow> bool) \<Rightarrow> 'a list \<Rightarrow> 'a list \<Rightarrow> nat \<Rightarrow> nat \<Rightarrow> nat \<Rightarrow> bool" where
  "partitioned pred xs ys first m lst \<longleftrightarrow>
     first \<le> m \<and> m \<le> lst \<and> unchanged_outside xs ys first lst \<and>
     mset (range_of ys first lst) = mset (range_of xs first lst) \<and>
     (\<forall>j. first \<le> j \<and> j < m \<longrightarrow> pred (ys ! j)) \<and>
     (\<forall>j. m \<le> j \<and> j < lst \<longrightarrow> \<not> pred (ys ! j))"

text \<open>
  Two elements compare equal when neither is less than the other. A rearrangement is
  stable when, for every element \<open>z\<close>, the elements that compare equal to \<open>z\<close> come in
  the same order before and after.
\<close>

definition equivalent :: "'a::ord \<Rightarrow> 'a \<Rightarrow> bool" where
  "equivalent a b \<longleftrightarrow> \<not> a < b \<and> \<not> b < a"

definition order_of_equals_kept :: "'a::ord list \<Rightarrow> 'a list \<Rightarrow> bool" where
  "order_of_equals_kept xs ys \<longleftrightarrow> (\<forall>z. filter (equivalent z) ys = filter (equivalent z) xs)"

subsection \<open>Library primitives used by the templates\<close>

text \<open>\<^verbatim>\<open>std::iter_swap(a, b)\<close>: exchanges the two elements pointed to.\<close>

definition iter_swap :: "'a list \<Rightarrow> nat \<Rightarrow> nat \<Rightarrow> 'a list" where
  "iter_swap xs a b = xs[a := xs ! b, b := xs ! a]"

text \<open>
  \<^verbatim>\<open>std::distance(first, last)\<close> on forward iterators counts the increments that take
  \<open>first\<close> to \<open>last\<close>; \<^verbatim>\<open>std::next(first, n)\<close> is \<open>first + n\<close>.
\<close>

partial_function (option) distance_loop :: "nat \<Rightarrow> nat \<Rightarrow> nat \<Rightarrow> nat option" where
  "distance_loop first lst n =
     (if first \<noteq> lst then distance_loop (Suc first) lst (Suc n) else Some n)"

definition distance :: "nat \<Rightarrow> nat \<Rightarrow> nat option" where
  "distance first lst = distance_loop first lst 0"

text \<open>
  \<^verbatim>\<open>std::min_element(first, last)\<close>: the first smallest element of the range, by
  \<^verbatim>\<open>operator<\<close>; \<open>last\<close> on an empty range.
  \<^verbatim>\<open>
  if (first == last) return last;
  ForwardIt smallest = first;
  while (++first != last)
    if (*first < *smallest) smallest = first;
  return smallest;
  \<close>
\<close>

partial_function (option) min_element_loop ::
  "'a::ord list \<Rightarrow> nat \<Rightarrow> nat \<Rightarrow> nat \<Rightarrow> nat option" where
  "min_element_loop xs smallest first lst =
     (if Suc first \<noteq> lst
      then min_element_loop xs
             (if xs ! Suc first < xs ! smallest then Suc first else smallest) (Suc first) lst
      else Some smallest)"

definition min_element :: "'a::ord list \<Rightarrow> nat \<Rightarrow> nat \<Rightarrow> nat option" where
  "min_element xs first lst =
     (if first = lst then Some lst else min_element_loop xs first first lst)"

text \<open>
  \<^verbatim>\<open>std::partition(first, last, pred)\<close> in its forward-iterator form (\<open>quicksort\<close> is
  called on a \<^verbatim>\<open>std::forward_list\<close>):
  \<^verbatim>\<open>
  if (first == last) return first;
  while (pred(*first))
    if (++first == last) return first;
  ForwardIt next = first;
  while (++next != last)
    if (pred(*next)) { std::iter_swap(first, next); ++first; }
  return first;
  \<close>
  The model returns the updated store and the returned iterator.
\<close>

partial_function (option) partition_swap_loop ::
  "('a \<Rightarrow> bool) \<Rightarrow> 'a list \<Rightarrow> nat \<Rightarrow> nat \<Rightarrow> nat \<Rightarrow> ('a list \<times> nat) option" where
  "partition_swap_loop pred xs first nxt lst =
     (if Suc nxt \<noteq> lst
      then (if pred (xs ! Suc nxt)
            then partition_swap_loop pred (iter_swap xs first (Suc nxt)) (Suc first) (Suc nxt) lst
            else partition_swap_loop pred xs first (Suc nxt) lst)
      else Some (xs, first))"

partial_function (option) partition_skip_loop ::
  "('a \<Rightarrow> bool) \<Rightarrow> 'a list \<Rightarrow> nat \<Rightarrow> nat \<Rightarrow> ('a list \<times> nat) option" where
  "partition_skip_loop pred xs first lst =
     (if pred (xs ! first)
      then (if Suc first = lst then Some (xs, Suc first)
            else partition_skip_loop pred xs (Suc first) lst)
      else partition_swap_loop pred xs first first lst)"

definition partition_fwd ::
  "('a \<Rightarrow> bool) \<Rightarrow> 'a list \<Rightarrow> nat \<Rightarrow> nat \<Rightarrow> ('a list \<times> nat) option" where
  "partition_fwd pred xs first lst =
     (if first = lst then Some (xs, first) else partition_skip_loop pred xs first lst)"

text \<open>
  \<^verbatim>\<open>std::inplace_merge(first, middle, last)\<close>: the stable merge of the two consecutive
  runs \<open>[first, middle)\<close> and \<open>[middle, last)\<close>, written back over \<open>[first, last)\<close>.
  An element of the second run goes first only when it is less than the head of the
  first run.
\<close>

fun merge_runs :: "'a::ord list \<Rightarrow> 'a list \<Rightarrow> 'a list" where
  "merge_runs [] ys = ys"
| "merge_runs xs [] = xs"
| "merge_runs (x # xs) (y # ys) =
     (if y < x then y # merge_runs (x # xs) ys else x # merge_runs xs (y # ys))"

definition inplace_merge :: "'a::ord list \<Rightarrow> nat \<Rightarrow> nat \<Rightarrow> nat \<Rightarrow> 'a list" where
  "inplace_merge xs first middle lst =
     take first xs @ merge_runs (range_of xs first middle) (range_of xs middle lst) @ drop lst xs"

section \<open>The sort templates\<close>

text \<open>
  \<^verbatim>\<open>
  template<class ForwardIt>
  void selection_sort(ForwardIt begin, ForwardIt end) {
    for (ForwardIt i = begin; i != end; ++i)
      std::iter_swap(i, std::min_element(i, end));
  }
  \<close>
\<close>

partial_function (option) selection_sort_loop ::
  "'a::ord list \<Rightarrow> nat \<Rightarrow> nat \<Rightarrow> 'a list option" where
  "selection_sort_loop xs i lst =
     (if i \<noteq> lst
      then do { m \<leftarrow> min_element xs i lst;
                selection_sort_loop (iter_swap xs i m) (Suc i) lst }
      else Some xs)"

definition selection_sort :: "'a::ord list \<Rightarrow> nat \<Rightarrow> nat \<Rightarrow> 'a list option" where
  "selection_sort xs first lst = selection_sort_loop xs first lst"

text \<open>
  \<^verbatim>\<open>
  template <class ForwardIt>
  void quicksort(ForwardIt first, ForwardIt last) {
    if (first == last) return;
    auto pivot = *std::next(first, std::distance(first,last) / 2);
    ForwardIt middle1 = std::partition(first, last,
                        [pivot](const auto& em) { return em < pivot; });
    ForwardIt middle2 = std::partition(middle1, last,
                        [pivot](const auto& em) { return !(pivot < em); });
    quicksort(first, middle1);
    quicksort(middle2, last);
  }
  \<close>
\<close>

partial_function (option) quicksort ::
  "'a::ord list \<Rightarrow> nat \<Rightarrow> nat \<Rightarrow> 'a list option" where
  "quicksort xs first lst =
     (if first = lst then Some xs
      else do {
        d \<leftarrow> distance first lst;
        let pivot = xs ! (first + d div 2);
        (xs1, middle1) \<leftarrow> partition_fwd (\<lambda>em. em < pivot) xs first lst;
        (xs2, middle2) \<leftarrow> partition_fwd (\<lambda>em. \<not> pivot < em) xs1 middle1 lst;
        xs3 \<leftarrow> quicksort xs2 first middle1;
        quicksort xs3 middle2 lst
      })"

text \<open>
  \<^verbatim>\<open>
  template<class Iter>
  void merge_sort(Iter first, Iter last) {
    if (last - first > 1) {
      Iter middle = first + (last - first) / 2;
      merge_sort(first, middle);
      merge_sort(middle, last);
      std::inplace_merge(first, middle, last);
    }
  }
  \<close>
  The iterators are random-access, so \<open>last - first\<close> is a subtraction and not a loop;
  the recursion is on a strictly shorter range whatever the arguments, which the
  termination proof shows.
\<close>

function merge_sort :: "'a::ord list \<Rightarrow> nat \<Rightarrow> nat \<Rightarrow> 'a list" where
  "merge_sort xs first lst =
     (if lst - first > 1
      then let middle = first + (lst - first) div 2;
               xs1 = merge_sort xs first middle;
               xs2 = merge_sort xs1 middle lst
           in inplace_merge xs2 first middle lst
      else xs)"
  by pat_completeness auto
termination
  by (relation "measure (\<lambda>(xs, first, lst). lst - first)") auto

declare merge_sort.simps [simp del]

declare distance_loop.simps [code] min_element_loop.simps [code]
  partition_swap_loop.simps [code] partition_skip_loop.simps [code]
  selection_sort_loop.simps [code] quicksort.simps [code]

section \<open>Element types used in the examples\<close>

text \<open>
  An element that carries a secondary key the comparison does not look at:
  \<^verbatim>\<open>struct tagged { K key; T tag; };\<close> with
  \<^verbatim>\<open>bool operator<(tagged a, tagged b) { return a.key < b.key; }\<close>.
  Two elements with the same key compare equal (neither is less), whatever their tags.
\<close>

datatype ('k, 't) tagged = Tagged (key: 'k) (tag: 't)

instantiation tagged :: (preorder, type) preorder
begin

definition less_eq_tagged :: "('a, 'b) tagged \<Rightarrow> ('a, 'b) tagged \<Rightarrow> bool" where
  "less_eq_tagged a b \<longleftrightarrow> key a \<le> key b"

definition less_tagged :: "('a, 'b) tagged \<Rightarrow> ('a, 'b) tagged \<Rightarrow> bool" where
  "less_tagged a b \<longleftrightarrow> key a < key b"

instance
  by standard (auto simp: less_eq_tagged_def less_tagged_def less_le_not_le intro: order_trans)

end

text \<open>
  An element type whose \<^verbatim>\<open>operator<\<close> is the reverse of the order of the wrapped
  value: \<^verbatim>\<open>bool operator<(desc a, desc b) { return b.val < a.val; }\<close>.
\<close>

datatype 'a desc = Desc (val: 'a)

instantiation desc :: (linorder) linorder
begin

definition less_eq_desc :: "'a desc \<Rightarrow> 'a desc \<Rightarrow> bool" where
  "less_eq_desc a b \<longleftrightarrow> val b \<le> val a"

definition less_desc :: "'a desc \<Rightarrow> 'a desc \<Rightarrow> bool" where
  "less_desc a b \<longleftrightarrow> val b < val a"

instance
  by standard (auto simp: less_eq_desc_def less_desc_def desc.expand)

end

section \<open>Facts about ranges and the library primitives\<close>

lemma length_range_of: "lst \<le> length xs \<Longrightarrow> length (range_of xs first lst) = lst - first"
  by (simp add: range_of_def)

lemma nth_range_of:
  "lst \<le> length xs \<Longrightarrow> j < lst - first \<Longrightarrow> range_of xs first lst ! j = xs ! (first + j)"
  by (simp add: range_of_def)

lemma range_of_split:
  assumes "first \<le> m" "m \<le> lst"
  shows "range_of xs first lst = range_of xs first m @ range_of xs m lst"
proof -
  have "lst - first = (m - first) + (lst - m)" using assms by simp
  then have "take (lst - first) (drop first xs) =
      take (m - first) (drop first xs) @ take (lst - m) (drop (m - first) (drop first xs))"
    by (simp only: take_add)
  then show ?thesis using assms by (simp add: range_of_def)
qed

lemma in_set_range_of:
  assumes "lst \<le> length xs"
  shows "x \<in> set (range_of xs first lst) \<longleftrightarrow> (\<exists>j. first \<le> j \<and> j < lst \<and> x = xs ! j)"
proof
  assume "x \<in> set (range_of xs first lst)"
  then obtain i where "i < length (range_of xs first lst)" "range_of xs first lst ! i = x"
    by (auto simp: in_set_conv_nth)
  then have "i < lst - first" "x = xs ! (first + i)"
    using assms by (simp_all add: length_range_of nth_range_of)
  then show "\<exists>j. first \<le> j \<and> j < lst \<and> x = xs ! j"
    by (intro exI[of _ "first + i"]) auto
next
  assume "\<exists>j. first \<le> j \<and> j < lst \<and> x = xs ! j"
  then obtain j where j: "first \<le> j" "j < lst" "x = xs ! j" by blast
  then have "j - first < length (range_of xs first lst)" "range_of xs first lst ! (j - first) = x"
    using assms by (simp_all add: length_range_of nth_range_of)
  then show "x \<in> set (range_of xs first lst)" by (metis nth_mem)
qed

lemma range_of_eqI:
  assumes "length ys = length xs" "lst \<le> length xs"
    and "\<And>j. first \<le> j \<Longrightarrow> j < lst \<Longrightarrow> ys ! j = xs ! j"
  shows "range_of ys first lst = range_of xs first lst"
  using assms by (intro nth_equalityI) (simp_all add: length_range_of nth_range_of)

lemma sorted_wrt_range_of:
  assumes "lst \<le> length xs"
  shows "sorted_wrt P (range_of xs first lst) \<longleftrightarrow>
         (\<forall>j k. first \<le> j \<and> j < k \<and> k < lst \<longrightarrow> P (xs ! j) (xs ! k))"
proof
  assume s: "sorted_wrt P (range_of xs first lst)"
  show "\<forall>j k. first \<le> j \<and> j < k \<and> k < lst \<longrightarrow> P (xs ! j) (xs ! k)"
  proof (intro allI impI)
    fix j k assume "first \<le> j \<and> j < k \<and> k < lst"
    then have jk: "first \<le> j" "j < k" "k < lst" by auto
    then have "P (range_of xs first lst ! (j - first)) (range_of xs first lst ! (k - first))"
      using assms by (intro sorted_wrt_nth_less[OF s]) (auto simp: length_range_of)
    moreover have "range_of xs first lst ! (j - first) = xs ! j"
      "range_of xs first lst ! (k - first) = xs ! k"
      using jk assms by (simp_all add: nth_range_of)
    ultimately show "P (xs ! j) (xs ! k)" by simp
  qed
next
  assume h: "\<forall>j k. first \<le> j \<and> j < k \<and> k < lst \<longrightarrow> P (xs ! j) (xs ! k)"
  show "sorted_wrt P (range_of xs first lst)"
    unfolding sorted_wrt_iff_nth_less
  proof (intro allI impI)
    fix i j assume "i < j" "j < length (range_of xs first lst)"
    then have ij: "i < j" "j < lst - first" using assms by (simp_all add: length_range_of)
    then have "P (xs ! (first + i)) (xs ! (first + j))" using h by auto
    then show "P (range_of xs first lst ! i) (range_of xs first lst ! j)"
      using ij assms by (simp add: nth_range_of)
  qed
qed

lemma range_of_update:
  "first \<le> a \<Longrightarrow> range_of (xs[a := v]) first lst = (range_of xs first lst)[a - first := v]"
  by (simp add: range_of_def drop_update_swap take_update_swap)

lemma mset_range_of_iter_swap:
  assumes "first \<le> a" "a < lst" "first \<le> b" "b < lst" "lst \<le> length xs"
  shows "mset (range_of (iter_swap xs a b) first lst) = mset (range_of xs first lst)"
proof -
  let ?r = "range_of xs first lst"
  have "range_of (iter_swap xs a b) first lst = ?r[a - first := ?r ! (b - first), b - first := ?r ! (a - first)]"
    using assms by (simp add: iter_swap_def range_of_update nth_range_of)
  moreover have "a - first < length ?r" "b - first < length ?r"
    using assms by (simp_all add: length_range_of)
  ultimately show ?thesis by (simp add: mset_swap)
qed

lemma unchanged_outside_iter_swap:
  assumes "first \<le> a" "a < lst" "first \<le> b" "b < lst"
  shows "unchanged_outside xs (iter_swap xs a b) first lst"
  using assms by (auto simp: unchanged_outside_def iter_swap_def)

lemma unchanged_outside_refl: "unchanged_outside xs xs first lst"
  by (simp add: unchanged_outside_def)

lemma unchanged_outside_trans:
  "unchanged_outside xs ys first lst \<Longrightarrow> unchanged_outside ys zs first lst \<Longrightarrow>
   unchanged_outside xs zs first lst"
  by (auto simp: unchanged_outside_def)

lemma unchanged_outside_mono:
  "unchanged_outside xs ys a b \<Longrightarrow> first \<le> a \<Longrightarrow> b \<le> lst \<Longrightarrow> unchanged_outside xs ys first lst"
  by (auto simp: unchanged_outside_def)

lemma distance_loop_eq: "first \<le> lst \<Longrightarrow> distance_loop first lst n = Some (n + (lst - first))"
proof (induction "lst - first" arbitrary: first n)
  case 0
  then show ?case by (simp add: distance_loop.simps)
next
  case (Suc d)
  then have "distance_loop (Suc first) lst (Suc n) = Some (Suc n + (lst - Suc first))"
    by (intro Suc.hyps) auto
  with Suc.hyps(2) Suc.prems show ?case
    by (subst distance_loop.simps) auto
qed

lemma distance_eq: "first \<le> lst \<Longrightarrow> distance first lst = Some (lst - first)"
  by (simp add: distance_def distance_loop_eq)

lemma range_of_Cons:
  assumes "i < lst" "lst \<le> length xs"
  shows "range_of xs i lst = xs ! i # range_of xs (Suc i) lst"
proof -
  have "range_of xs i lst = range_of xs i (Suc i) @ range_of xs (Suc i) lst"
    using assms by (intro range_of_split) auto
  moreover have "range_of xs i (Suc i) = [xs ! i]"
    using assms by (intro nth_equalityI) (simp_all add: length_range_of nth_range_of)
  ultimately show ?thesis by simp
qed

lemma range_of_empty [simp]: "range_of xs i i = []"
  by (simp add: range_of_def)

lemma not_less_total:
  fixes x y :: "'a::preorder"
  assumes "\<forall>x y::'a. x \<le> y \<or> y \<le> x"
  shows "\<not> x < y \<longleftrightarrow> y \<le> x"
  using assms by (auto simp: less_le_not_le)

subsection \<open>Selection sort: the minimum goes to the front of the rest\<close>

lemma min_element_loop_spec:
  fixes xs :: "'a::preorder list"
  assumes "b \<le> smallest" "smallest \<le> first" "first < lst"
  shows "\<exists>m. min_element_loop xs smallest first lst = Some m \<and> b \<le> m \<and> m < lst \<and>
            ((\<forall>x y::'a. x \<le> y \<or> y \<le> x) \<longrightarrow>
             (\<forall>j. b \<le> j \<and> j \<le> first \<longrightarrow> xs ! smallest \<le> xs ! j) \<longrightarrow>
             (\<forall>j. b \<le> j \<and> j < lst \<longrightarrow> xs ! m \<le> xs ! j))"
  using assms
proof (induction "lst - first" arbitrary: smallest first)
  case 0
  then show ?case by simp
next
  case (Suc d)
  show ?case
  proof (cases "Suc first = lst")
    case True
    then have "min_element_loop xs smallest first lst = Some smallest"
      by (subst min_element_loop.simps) simp
    moreover have "\<forall>j. j < lst \<longrightarrow> j \<le> first" using True by auto
    ultimately show ?thesis using Suc.prems by auto
  next
    case False
    let ?s = "if xs ! Suc first < xs ! smallest then Suc first else smallest"
    have unfold: "min_element_loop xs smallest first lst = min_element_loop xs ?s (Suc first) lst"
      using False by (subst min_element_loop.simps) simp
    have "\<exists>m. min_element_loop xs ?s (Suc first) lst = Some m \<and> b \<le> m \<and> m < lst \<and>
            ((\<forall>x y::'a. x \<le> y \<or> y \<le> x) \<longrightarrow>
             (\<forall>j. b \<le> j \<and> j \<le> Suc first \<longrightarrow> xs ! ?s \<le> xs ! j) \<longrightarrow>
             (\<forall>j. b \<le> j \<and> j < lst \<longrightarrow> xs ! m \<le> xs ! j))"
      using Suc.hyps(2) Suc.prems False by (intro Suc.hyps(1)) auto
    then obtain m where m: "min_element_loop xs ?s (Suc first) lst = Some m" "b \<le> m" "m < lst"
      and least: "(\<forall>x y::'a. x \<le> y \<or> y \<le> x) \<Longrightarrow>
             (\<forall>j. b \<le> j \<and> j \<le> Suc first \<longrightarrow> xs ! ?s \<le> xs ! j) \<Longrightarrow>
             (\<forall>j. b \<le> j \<and> j < lst \<longrightarrow> xs ! m \<le> xs ! j)"
      by blast
    have "\<forall>j. b \<le> j \<and> j < lst \<longrightarrow> xs ! m \<le> xs ! j"
      if tot: "\<forall>x y::'a. x \<le> y \<or> y \<le> x"
        and inv: "\<forall>j. b \<le> j \<and> j \<le> first \<longrightarrow> xs ! smallest \<le> xs ! j"
    proof (rule least[OF tot], intro allI impI)
      fix j assume j: "b \<le> j \<and> j \<le> Suc first"
      show "xs ! ?s \<le> xs ! j"
      proof (cases "xs ! Suc first < xs ! smallest")
        case True
        show ?thesis
        proof (cases "j = Suc first")
          case True
          with \<open>xs ! Suc first < xs ! smallest\<close> show ?thesis by simp
        next
          case False
          with j inv have "xs ! smallest \<le> xs ! j" by auto
          with True show ?thesis by (auto intro: less_imp_le order_trans)
        qed
      next
        case False
        then have "xs ! smallest \<le> xs ! Suc first" using not_less_total[OF tot] by blast
        with False j inv show ?thesis by (cases "j = Suc first") auto
      qed
    qed
    with m unfold show ?thesis by auto
  qed
qed

lemma min_element_spec:
  fixes xs :: "'a::preorder list"
  assumes "first < lst"
  shows "\<exists>m. min_element xs first lst = Some m \<and> first \<le> m \<and> m < lst \<and>
            ((\<forall>x y::'a. x \<le> y \<or> y \<le> x) \<longrightarrow> (\<forall>j. first \<le> j \<and> j < lst \<longrightarrow> xs ! m \<le> xs ! j))"
proof -
  from min_element_loop_spec[of first first first lst xs] assms
  obtain m where m: "min_element_loop xs first first lst = Some m" "first \<le> m" "m < lst"
    and least: "(\<forall>x y::'a. x \<le> y \<or> y \<le> x) \<Longrightarrow>
             (\<forall>j. first \<le> j \<and> j \<le> first \<longrightarrow> xs ! first \<le> xs ! j) \<Longrightarrow>
             (\<forall>j. first \<le> j \<and> j < lst \<longrightarrow> xs ! m \<le> xs ! j)"
    by blast
  have "\<forall>j. first \<le> j \<and> j \<le> first \<longrightarrow> xs ! first \<le> xs ! j"
    by (auto simp: le_antisym)
  with least have "(\<forall>x y::'a. x \<le> y \<or> y \<le> x) \<longrightarrow> (\<forall>j. first \<le> j \<and> j < lst \<longrightarrow> xs ! m \<le> xs ! j)"
    by blast
  with m assms show ?thesis by (simp add: min_element_def)
qed

lemma iter_swap_nth_left: "a < length xs \<Longrightarrow> b < length xs \<Longrightarrow> iter_swap xs a b ! a = xs ! b"
  by (cases "a = b") (simp_all add: iter_swap_def)

lemma length_iter_swap [simp]: "length (iter_swap xs a b) = length xs"
  by (simp add: iter_swap_def)

lemma selection_sort_loop_spec:
  fixes xs :: "'a::preorder list"
  assumes "i \<le> lst" "lst \<le> length xs"
  shows "\<exists>ys. selection_sort_loop xs i lst = Some ys \<and> unchanged_outside xs ys i lst \<and>
            mset (range_of ys i lst) = mset (range_of xs i lst) \<and>
            ((\<forall>x y::'a. x \<le> y \<or> y \<le> x) \<longrightarrow> sorted_wrt (\<le>) (range_of ys i lst))"
  using assms
proof (induction "lst - i" arbitrary: xs i)
  case 0
  then have "i = lst" by simp
  then have "selection_sort_loop xs i lst = Some xs"
    by (subst selection_sort_loop.simps) simp
  with \<open>i = lst\<close> show ?case by (simp add: unchanged_outside_refl)
next
  case (Suc d)
  then have il: "i < lst" by simp
  from min_element_spec[OF il, of xs]
  obtain m where m: "min_element xs i lst = Some m" "i \<le> m" "m < lst"
    and least: "(\<forall>x y::'a. x \<le> y \<or> y \<le> x) \<Longrightarrow> (\<forall>j. i \<le> j \<and> j < lst \<longrightarrow> xs ! m \<le> xs ! j)"
    by blast
  let ?xs' = "iter_swap xs i m"
  have unfold: "selection_sort_loop xs i lst = selection_sort_loop ?xs' (Suc i) lst"
    using il m by (subst selection_sort_loop.simps) simp
  have "\<exists>ys. selection_sort_loop ?xs' (Suc i) lst = Some ys \<and> unchanged_outside ?xs' ys (Suc i) lst \<and>
            mset (range_of ys (Suc i) lst) = mset (range_of ?xs' (Suc i) lst) \<and>
            ((\<forall>x y::'a. x \<le> y \<or> y \<le> x) \<longrightarrow> sorted_wrt (\<le>) (range_of ys (Suc i) lst))"
    using Suc.hyps(2) Suc.prems il by (intro Suc.hyps(1)) auto
  then obtain ys where ys: "selection_sort_loop ?xs' (Suc i) lst = Some ys"
    and frame': "unchanged_outside ?xs' ys (Suc i) lst"
    and perm': "mset (range_of ys (Suc i) lst) = mset (range_of ?xs' (Suc i) lst)"
    and sorted': "(\<forall>x y::'a. x \<le> y \<or> y \<le> x) \<Longrightarrow> sorted_wrt (\<le>) (range_of ys (Suc i) lst)"
    by blast
  have len: "length ys = length xs" using frame' by (simp add: unchanged_outside_def)
  have ysi: "ys ! i = xs ! m"
    using frame' il m Suc.prems by (simp add: unchanged_outside_def iter_swap_nth_left)
  have swapi: "?xs' ! i = xs ! m"
    using il m Suc.prems by (simp add: iter_swap_nth_left)
  have frame: "unchanged_outside xs ys i lst"
  proof (rule unchanged_outside_trans)
    show "unchanged_outside xs ?xs' i lst"
      using il m by (intro unchanged_outside_iter_swap) auto
    show "unchanged_outside ?xs' ys i lst"
      using frame' by (rule unchanged_outside_mono) auto
  qed
  have permswap: "mset (range_of ?xs' i lst) = mset (range_of xs i lst)"
    using il m Suc.prems by (intro mset_range_of_iter_swap) auto
  have perm: "mset (range_of ys i lst) = mset (range_of xs i lst)"
  proof -
    have "mset (range_of ys i lst) = {#ys ! i#} + mset (range_of ys (Suc i) lst)"
      using il len Suc.prems by (simp add: range_of_Cons)
    also have "\<dots> = {#?xs' ! i#} + mset (range_of ?xs' (Suc i) lst)"
      using perm' ysi swapi by simp
    also have "\<dots> = mset (range_of ?xs' i lst)"
      using il Suc.prems by (simp add: range_of_Cons)
    finally show ?thesis using permswap by simp
  qed
  have "sorted_wrt (\<le>) (range_of ys i lst)" if tot: "\<forall>x y::'a. x \<le> y \<or> y \<le> x"
  proof -
    have "xs ! m \<le> y" if "y \<in> set (range_of ys (Suc i) lst)" for y
    proof -
      have "set (range_of ys (Suc i) lst) = set (range_of ?xs' (Suc i) lst)"
        using perm' by (rule mset_eq_setD)
      with that have "y \<in> set (range_of ?xs' i lst)"
        using il Suc.prems by (simp add: range_of_Cons[of i lst ?xs'])
      moreover have "set (range_of ?xs' i lst) = set (range_of xs i lst)"
        using permswap by (rule mset_eq_setD)
      ultimately have "y \<in> set (range_of xs i lst)" by simp
      then obtain j where "i \<le> j" "j < lst" "y = xs ! j"
        using Suc.prems by (auto simp: in_set_range_of)
      with least[OF tot] show ?thesis by auto
    qed
    then show ?thesis
      using sorted'[OF tot] il len Suc.prems ysi by (simp add: range_of_Cons[of i lst ys])
  qed
  with unfold ys frame perm show ?case by simp
qed

subsection \<open>Partition\<close>

lemma mset_range_of_widen:
  assumes "a \<le> first" "first \<le> lst" "lst \<le> b" "b \<le> length xs"
    and frame: "unchanged_outside xs ys first lst"
    and perm: "mset (range_of ys first lst) = mset (range_of xs first lst)"
  shows "mset (range_of ys a b) = mset (range_of xs a b)"
proof -
  have len: "length ys = length xs" using frame by (simp add: unchanged_outside_def)
  have split: "range_of zs a b = range_of zs a first @ range_of zs first lst @ range_of zs lst b" for zs :: "'a list"
    using assms(1-3) range_of_split[of a first b zs] range_of_split[of first lst b zs] by simp
  have "range_of ys a first = range_of xs a first"
    using frame assms(1-4) by (intro range_of_eqI) (auto simp: unchanged_outside_def)
  moreover have "range_of ys lst b = range_of xs lst b"
    using frame assms(1-4) by (intro range_of_eqI) (auto simp: unchanged_outside_def)
  ultimately show ?thesis using perm by (simp add: split[of ys] split[of xs])
qed

lemma partition_swap_loop_spec:
  assumes "first \<le> nxt" "nxt < lst" "lst \<le> length xs"
    and "\<forall>j. first \<le> j \<and> j \<le> nxt \<longrightarrow> \<not> pred (xs ! j)"
  shows "\<exists>ys m. partition_swap_loop pred xs first nxt lst = Some (ys, m) \<and>
                partitioned pred xs ys first m lst"
  using assms
proof (induction "lst - nxt" arbitrary: xs first nxt)
  case 0
  then show ?case by simp
next
  case (Suc d)
  show ?case
  proof (cases "Suc nxt = lst")
    case True
    then have "partition_swap_loop pred xs first nxt lst = Some (xs, first)"
      by (subst partition_swap_loop.simps) simp
    moreover have "partitioned pred xs xs first first lst"
      using True Suc.prems by (auto simp: partitioned_def unchanged_outside_refl)
    ultimately show ?thesis by blast
  next
    case False
    show ?thesis
    proof (cases "pred (xs ! Suc nxt)")
      case True
      let ?xs' = "iter_swap xs first (Suc nxt)"
      have unfold: "partition_swap_loop pred xs first nxt lst =
                    partition_swap_loop pred ?xs' (Suc first) (Suc nxt) lst"
        using False True by (subst partition_swap_loop.simps) simp
      have fl: "first < length xs" "Suc nxt < length xs" "Suc nxt < lst"
        using Suc.prems False by auto
      have inv': "\<forall>j. Suc first \<le> j \<and> j \<le> Suc nxt \<longrightarrow> \<not> pred (?xs' ! j)"
      proof (intro allI impI)
        fix j assume j: "Suc first \<le> j \<and> j \<le> Suc nxt"
        show "\<not> pred (?xs' ! j)"
        proof (cases "j = Suc nxt")
          case True
          then have "?xs' ! j = xs ! first" using fl by (simp add: iter_swap_def)
          with Suc.prems show ?thesis by auto
        next
          case False
          with j have "?xs' ! j = xs ! j" by (simp add: iter_swap_def)
          with Suc.prems j False show ?thesis by auto
        qed
      qed
      have "\<exists>ys m. partition_swap_loop pred ?xs' (Suc first) (Suc nxt) lst = Some (ys, m) \<and>
                partitioned pred ?xs' ys (Suc first) m lst"
        using Suc.hyps(2) Suc.prems fl inv' by (intro Suc.hyps(1)) auto
      then obtain ys m where res: "partition_swap_loop pred ?xs' (Suc first) (Suc nxt) lst = Some (ys, m)"
        and p': "partitioned pred ?xs' ys (Suc first) m lst" by blast
      have frame': "unchanged_outside ?xs' ys (Suc first) lst"
        and perm': "mset (range_of ys (Suc first) lst) = mset (range_of ?xs' (Suc first) lst)"
        using p' by (simp_all add: partitioned_def)
      have swap_frame: "unchanged_outside xs ?xs' first lst"
        using fl Suc.prems by (intro unchanged_outside_iter_swap) auto
      have frame: "unchanged_outside xs ys first lst"
        using swap_frame unchanged_outside_mono[OF frame', of first lst]
        by (auto intro: unchanged_outside_trans)
      have "mset (range_of ys first lst) = mset (range_of ?xs' first lst)"
        using frame' perm' fl Suc.prems by (intro mset_range_of_widen[of first "Suc first" lst lst]) auto
      also have "\<dots> = mset (range_of xs first lst)"
        using fl Suc.prems by (intro mset_range_of_iter_swap) auto
      finally have perm: "mset (range_of ys first lst) = mset (range_of xs first lst)" .
      have "ys ! first = ?xs' ! first"
        using frame' fl by (simp add: unchanged_outside_def)
      also have "\<dots> = xs ! Suc nxt" using fl by (simp add: iter_swap_nth_left)
      finally have "pred (ys ! first)" using True by simp
      moreover have "\<forall>j. Suc first \<le> j \<and> j < m \<longrightarrow> pred (ys ! j)"
        using p' by (simp add: partitioned_def)
      ultimately have "\<forall>j. first \<le> j \<and> j < m \<longrightarrow> pred (ys ! j)"
        by (metis Suc_leI le_neq_implies_less)
      with p' frame perm have "partitioned pred xs ys first m lst"
        by (auto simp: partitioned_def)
      with res unfold show ?thesis by auto
    next
      case npred: False
      have unfold: "partition_swap_loop pred xs first nxt lst =
                    partition_swap_loop pred xs first (Suc nxt) lst"
        using False npred by (subst partition_swap_loop.simps) simp
      have "\<forall>j. first \<le> j \<and> j \<le> Suc nxt \<longrightarrow> \<not> pred (xs ! j)"
        using Suc.prems npred by (auto simp: le_Suc_eq)
      then have "\<exists>ys m. partition_swap_loop pred xs first (Suc nxt) lst = Some (ys, m) \<and>
                partitioned pred xs ys first m lst"
        using Suc.hyps(2) Suc.prems False by (intro Suc.hyps(1)) auto
      with unfold show ?thesis by simp
    qed
  qed
qed

lemma partition_skip_loop_spec:
  assumes "first < lst" "lst \<le> length xs"
  shows "\<exists>ys m. partition_skip_loop pred xs first lst = Some (ys, m) \<and>
                partitioned pred xs ys first m lst"
  using assms
proof (induction "lst - first" arbitrary: first)
  case 0
  then show ?case by simp
next
  case (Suc d)
  show ?case
  proof (cases "pred (xs ! first)")
    case False
    then have "partition_skip_loop pred xs first lst = partition_swap_loop pred xs first first lst"
      by (subst partition_skip_loop.simps) simp
    moreover have "\<exists>ys m. partition_swap_loop pred xs first first lst = Some (ys, m) \<and>
                partitioned pred xs ys first m lst"
      using Suc.prems False by (intro partition_swap_loop_spec) (auto simp: le_antisym)
    ultimately show ?thesis by simp
  next
    case True
    show ?thesis
    proof (cases "Suc first = lst")
      case last: True
      then have "partition_skip_loop pred xs first lst = Some (xs, Suc first)"
        using True by (subst partition_skip_loop.simps) simp
      moreover have "partitioned pred xs xs first (Suc first) lst"
        using True last by (auto simp: partitioned_def unchanged_outside_refl less_Suc_eq le_antisym)
      ultimately show ?thesis by blast
    next
      case False
      then have unfold: "partition_skip_loop pred xs first lst = partition_skip_loop pred xs (Suc first) lst"
        using True by (subst partition_skip_loop.simps) simp
      have "\<exists>ys m. partition_skip_loop pred xs (Suc first) lst = Some (ys, m) \<and>
                partitioned pred xs ys (Suc first) m lst"
        using Suc.hyps(2) Suc.prems False by (intro Suc.hyps(1)) auto
      then obtain ys m where res: "partition_skip_loop pred xs (Suc first) lst = Some (ys, m)"
        and p': "partitioned pred xs ys (Suc first) m lst" by blast
      have frame': "unchanged_outside xs ys (Suc first) lst"
        and perm': "mset (range_of ys (Suc first) lst) = mset (range_of xs (Suc first) lst)"
        using p' by (simp_all add: partitioned_def)
      have frame: "unchanged_outside xs ys first lst"
        using frame' by (rule unchanged_outside_mono) auto
      have perm: "mset (range_of ys first lst) = mset (range_of xs first lst)"
        using frame' perm' Suc.prems by (intro mset_range_of_widen[of first "Suc first" lst lst]) auto
      have "ys ! first = xs ! first"
        using frame' Suc.prems by (simp add: unchanged_outside_def)
      then have "pred (ys ! first)" using True by simp
      moreover have "\<forall>j. Suc first \<le> j \<and> j < m \<longrightarrow> pred (ys ! j)"
        using p' by (simp add: partitioned_def)
      ultimately have "\<forall>j. first \<le> j \<and> j < m \<longrightarrow> pred (ys ! j)"
        by (metis Suc_leI le_neq_implies_less)
      with p' frame perm have "partitioned pred xs ys first m lst"
        by (auto simp: partitioned_def)
      with res unfold show ?thesis by auto
    qed
  qed
qed

lemma partition_fwd_spec:
  assumes "first \<le> lst" "lst \<le> length xs"
  shows "\<exists>ys m. partition_fwd pred xs first lst = Some (ys, m) \<and>
                partitioned pred xs ys first m lst"
proof (cases "first = lst")
  case True
  then show ?thesis by (auto simp: partition_fwd_def partitioned_def unchanged_outside_refl)
next
  case False
  with assms partition_skip_loop_spec[of first lst xs pred] show ?thesis
    by (simp add: partition_fwd_def)
qed

subsection \<open>Quicksort: the two partition steps\<close>

lemma partitioned_length: "partitioned pred xs ys first m lst \<Longrightarrow> length ys = length xs"
  by (simp add: partitioned_def unchanged_outside_def)

lemma partitioned_set:
  "partitioned pred xs ys first m lst \<Longrightarrow> set (range_of ys first lst) = set (range_of xs first lst)"
  by (auto simp: partitioned_def dest: mset_eq_setD)

lemma quicksort_partitions:
  fixes xs :: "'a::preorder list"
  assumes "first < lst" "lst \<le> length xs" and pivot: "pivot = xs ! (first + (lst - first) div 2)"
  shows "\<exists>xs1 m1 xs2 m2.
           partition_fwd (\<lambda>em. em < pivot) xs first lst = Some (xs1, m1) \<and>
           partition_fwd (\<lambda>em. \<not> pivot < em) xs1 m1 lst = Some (xs2, m2) \<and>
           partitioned (\<lambda>em. em < pivot) xs xs1 first m1 lst \<and>
           partitioned (\<lambda>em. \<not> pivot < em) xs1 xs2 m1 m2 lst \<and>
           m1 < m2 \<and> (\<exists>k. m1 \<le> k \<and> k < m2 \<and> xs2 ! k = pivot) \<and>
           (\<forall>j. first \<le> j \<and> j < m1 \<longrightarrow> xs2 ! j < pivot) \<and>
           (\<forall>j. m1 \<le> j \<and> j < m2 \<longrightarrow> \<not> xs2 ! j < pivot \<and> \<not> pivot < xs2 ! j) \<and>
           (\<forall>j. m2 \<le> j \<and> j < lst \<longrightarrow> pivot < xs2 ! j) \<and>
           quicksort xs first lst = quicksort xs2 first m1 \<bind> (\<lambda>xs3. quicksort xs3 m2 lst)"
proof -
  from partition_fwd_spec[of first lst xs "\<lambda>em. em < pivot"] assms
  obtain xs1 m1 where part1: "partition_fwd (\<lambda>em. em < pivot) xs first lst = Some (xs1, m1)"
    and p1: "partitioned (\<lambda>em. em < pivot) xs xs1 first m1 lst" by auto
  have len1: "length xs1 = length xs" using p1 by (rule partitioned_length)
  have m1: "first \<le> m1" "m1 \<le> lst" using p1 by (simp_all add: partitioned_def)
  from partition_fwd_spec[of m1 lst xs1 "\<lambda>em. \<not> pivot < em"] m1 len1 assms
  obtain xs2 m2 where part2: "partition_fwd (\<lambda>em. \<not> pivot < em) xs1 m1 lst = Some (xs2, m2)"
    and p2: "partitioned (\<lambda>em. \<not> pivot < em) xs1 xs2 m1 m2 lst" by auto
  have len2: "length xs2 = length xs" using p2 len1 by (simp add: partitioned_length)
  have m2: "m1 \<le> m2" "m2 \<le> lst" using p2 by (simp_all add: partitioned_def)
  \<comment> \<open>the pivot value is in the range, and stays in it\<close>
  have "pivot \<in> set (range_of xs first lst)"
    using assms by (subst in_set_range_of) (auto intro!: exI[of _ "first + (lst - first) div 2"])
  then have "pivot \<in> set (range_of xs1 first lst)"
    using partitioned_set[OF p1] by simp
  then obtain j where j: "first \<le> j" "j < lst" "xs1 ! j = pivot"
    using assms len1 by (auto simp: in_set_range_of)
  have "\<not> j < m1" using p1 j by (auto simp: partitioned_def)
  then have "pivot \<in> set (range_of xs1 m1 lst)"
    using j assms(2) len1 by (subst in_set_range_of) (auto intro!: exI[of _ j])
  then have "pivot \<in> set (range_of xs2 m1 lst)"
    using partitioned_set[OF p2] by simp
  then obtain k where k: "m1 \<le> k" "k < lst" "xs2 ! k = pivot"
    using assms len2 by (auto simp: in_set_range_of)
  have "\<not> m2 \<le> k" using p2 k by (auto simp: partitioned_def)
  with k have lt: "m1 < m2" and lands: "\<exists>k. m1 \<le> k \<and> k < m2 \<and> xs2 ! k = pivot" by auto
  \<comment> \<open>the three blocks\<close>
  have low: "\<forall>j. first \<le> j \<and> j < m1 \<longrightarrow> xs2 ! j < pivot"
  proof (intro allI impI)
    fix j assume j: "first \<le> j \<and> j < m1"
    then have "xs2 ! j = xs1 ! j"
      using p2 m1 len1 assms by (auto simp: partitioned_def unchanged_outside_def)
    with p1 j show "xs2 ! j < pivot" by (auto simp: partitioned_def)
  qed
  have notless: "\<not> x < pivot" if "x \<in> set (range_of xs2 m1 lst)" for x
  proof -
    from that have "x \<in> set (range_of xs1 m1 lst)" using partitioned_set[OF p2] by simp
    then obtain i where "m1 \<le> i" "i < lst" "x = xs1 ! i"
      using assms len1 by (auto simp: in_set_range_of)
    with p1 show ?thesis by (auto simp: partitioned_def)
  qed
  have mid: "\<forall>j. m1 \<le> j \<and> j < m2 \<longrightarrow> \<not> xs2 ! j < pivot \<and> \<not> pivot < xs2 ! j"
  proof (intro allI impI)
    fix j assume j: "m1 \<le> j \<and> j < m2"
    then have "xs2 ! j \<in> set (range_of xs2 m1 lst)"
      using m2 assms len2 by (subst in_set_range_of) auto
    then have "\<not> xs2 ! j < pivot" by (rule notless)
    moreover have "\<not> pivot < xs2 ! j" using p2 j by (auto simp: partitioned_def)
    ultimately show "\<not> xs2 ! j < pivot \<and> \<not> pivot < xs2 ! j" by simp
  qed
  have high: "\<forall>j. m2 \<le> j \<and> j < lst \<longrightarrow> pivot < xs2 ! j"
    using p2 by (auto simp: partitioned_def)
  have "quicksort xs first lst = quicksort xs2 first m1 \<bind> (\<lambda>xs3. quicksort xs3 m2 lst)"
    using assms part1 part2
    by (subst quicksort.simps) (simp add: distance_eq)
  with part1 part2 p1 p2 lt lands low mid high show ?thesis by blast
qed

lemma sorted_wrt_three_blocks:
  fixes ys :: "'a::preorder list"
  assumes tot: "\<forall>x y::'a. x \<le> y \<or> y \<le> x"
    and bounds: "first \<le> m1" "m1 \<le> m2" "m2 \<le> lst" "lst \<le> length ys"
    and sorted_low: "sorted_wrt (\<le>) (range_of ys first m1)"
    and sorted_high: "sorted_wrt (\<le>) (range_of ys m2 lst)"
    and low: "\<forall>j. first \<le> j \<and> j < m1 \<longrightarrow> ys ! j < p"
    and mid: "\<forall>j. m1 \<le> j \<and> j < m2 \<longrightarrow> \<not> ys ! j < p \<and> \<not> p < ys ! j"
    and high: "\<forall>j. m2 \<le> j \<and> j < lst \<longrightarrow> p < ys ! j"
  shows "sorted_wrt (\<le>) (range_of ys first lst)"
proof -
  have split: "range_of ys first lst = range_of ys first m1 @ range_of ys m1 m2 @ range_of ys m2 lst"
    using bounds range_of_split[of first m1 lst ys] range_of_split[of m1 m2 lst ys] by simp
  have A: "x < p" if "x \<in> set (range_of ys first m1)" for x
    using that low bounds by (auto simp: in_set_range_of)
  have B: "x \<le> p \<and> p \<le> x" if "x \<in> set (range_of ys m1 m2)" for x
    using that mid bounds not_less_total[OF tot] by (auto simp: in_set_range_of)
  have C: "p < x" if "x \<in> set (range_of ys m2 lst)" for x
    using that high bounds by (auto simp: in_set_range_of)
  have sorted_mid: "sorted_wrt (\<le>) (range_of ys m1 m2)"
  proof -
    have "ys ! j \<le> ys ! k" if "m1 \<le> j" "j < k" "k < m2" for j k
    proof -
      have "ys ! j \<le> p" "p \<le> ys ! k"
        using that mid not_less_total[OF tot] by auto
      then show ?thesis by (rule order_trans)
    qed
    then show ?thesis using bounds by (subst sorted_wrt_range_of) auto
  qed
  have AB: "x \<le> y" if "x \<in> set (range_of ys first m1)" "y \<in> set (range_of ys m1 m2)" for x y
    using A[OF that(1)] B[OF that(2)] by (auto intro: less_imp_le order_trans)
  have AC: "x \<le> y" if "x \<in> set (range_of ys first m1)" "y \<in> set (range_of ys m2 lst)" for x y
    using A[OF that(1)] C[OF that(2)] by (auto intro: less_imp_le less_trans)
  have BC: "x \<le> y" if "x \<in> set (range_of ys m1 m2)" "y \<in> set (range_of ys m2 lst)" for x y
    using B[OF that(1)] C[OF that(2)] by (auto intro: less_imp_le order_trans)
  show ?thesis
    using sorted_low sorted_mid sorted_high AB AC BC
    by (auto simp: split sorted_wrt_append)
qed

subsection \<open>Quicksort: the recursion\<close>

lemma quicksort_spec:
  fixes xs :: "'a::preorder list"
  assumes "first \<le> lst" "lst \<le> length xs"
  shows "\<exists>ys. quicksort xs first lst = Some ys \<and> unchanged_outside xs ys first lst \<and>
            mset (range_of ys first lst) = mset (range_of xs first lst) \<and>
            ((\<forall>x y::'a. x \<le> y \<or> y \<le> x) \<longrightarrow> sorted_wrt (\<le>) (range_of ys first lst))"
  using assms
proof (induction "lst - first" arbitrary: xs first lst rule: less_induct)
  case less
  show ?case
  proof (cases "first = lst")
    case True
    then have "quicksort xs first lst = Some xs" by (subst quicksort.simps) simp
    with True show ?thesis by (simp add: unchanged_outside_refl)
  next
    case False
    with less.prems have fl: "first < lst" by simp
    define pivot where "pivot = xs ! (first + (lst - first) div 2)"
    from quicksort_partitions[OF fl less.prems(2) pivot_def]
    obtain xs1 m1 xs2 m2 where
      p1: "partitioned (\<lambda>em. em < pivot) xs xs1 first m1 lst"
      and p2: "partitioned (\<lambda>em. \<not> pivot < em) xs1 xs2 m1 m2 lst"
      and lt: "m1 < m2"
      and low: "\<forall>j. first \<le> j \<and> j < m1 \<longrightarrow> xs2 ! j < pivot"
      and mid: "\<forall>j. m1 \<le> j \<and> j < m2 \<longrightarrow> \<not> xs2 ! j < pivot \<and> \<not> pivot < xs2 ! j"
      and high: "\<forall>j. m2 \<le> j \<and> j < lst \<longrightarrow> pivot < xs2 ! j"
      and unfold: "quicksort xs first lst = quicksort xs2 first m1 \<bind> (\<lambda>xs3. quicksort xs3 m2 lst)"
      by blast
    have b: "first \<le> m1" "m1 \<le> lst" "m1 \<le> m2" "m2 \<le> lst"
      using p1 p2 by (simp_all add: partitioned_def)
    have len1: "length xs1 = length xs" using p1 by (rule partitioned_length)
    have len2: "length xs2 = length xs" using p2 len1 by (simp add: partitioned_length)
    have f1: "unchanged_outside xs xs1 first lst"
      and perm1: "mset (range_of xs1 first lst) = mset (range_of xs first lst)"
      using p1 by (simp_all add: partitioned_def)
    have f2: "unchanged_outside xs1 xs2 m1 lst"
      and perm2: "mset (range_of xs2 m1 lst) = mset (range_of xs1 m1 lst)"
      using p2 by (simp_all add: partitioned_def)
    \<comment> \<open>first recursive call\<close>
    have "\<exists>ys. quicksort xs2 first m1 = Some ys \<and> unchanged_outside xs2 ys first m1 \<and>
            mset (range_of ys first m1) = mset (range_of xs2 first m1) \<and>
            ((\<forall>x y::'a. x \<le> y \<or> y \<le> x) \<longrightarrow> sorted_wrt (\<le>) (range_of ys first m1))"
      using b lt fl less.prems len2 by (intro less.hyps) auto
    then obtain xs3 where q1: "quicksort xs2 first m1 = Some xs3"
      and f3: "unchanged_outside xs2 xs3 first m1"
      and perm3: "mset (range_of xs3 first m1) = mset (range_of xs2 first m1)"
      and sorted3: "(\<forall>x y::'a. x \<le> y \<or> y \<le> x) \<Longrightarrow> sorted_wrt (\<le>) (range_of xs3 first m1)"
      by blast
    have len3: "length xs3 = length xs" using f3 len2 by (simp add: unchanged_outside_def)
    \<comment> \<open>second recursive call\<close>
    have "\<exists>ys. quicksort xs3 m2 lst = Some ys \<and> unchanged_outside xs3 ys m2 lst \<and>
            mset (range_of ys m2 lst) = mset (range_of xs3 m2 lst) \<and>
            ((\<forall>x y::'a. x \<le> y \<or> y \<le> x) \<longrightarrow> sorted_wrt (\<le>) (range_of ys m2 lst))"
      using b lt fl less.prems len3 by (intro less.hyps) auto
    then obtain ys where q2: "quicksort xs3 m2 lst = Some ys"
      and f4: "unchanged_outside xs3 ys m2 lst"
      and perm4: "mset (range_of ys m2 lst) = mset (range_of xs3 m2 lst)"
      and sorted4: "(\<forall>x y::'a. x \<le> y \<or> y \<le> x) \<Longrightarrow> sorted_wrt (\<le>) (range_of ys m2 lst)"
      by blast
    have len4: "length ys = length xs" using f4 len3 by (simp add: unchanged_outside_def)
    have res: "quicksort xs first lst = Some ys" using unfold q1 q2 by simp
    \<comment> \<open>frame\<close>
    have frame: "unchanged_outside xs ys first lst"
    proof -
      have "unchanged_outside xs1 xs2 first lst"
        using b by (intro unchanged_outside_mono[OF f2]) auto
      moreover have "unchanged_outside xs2 xs3 first lst"
        using b by (intro unchanged_outside_mono[OF f3]) auto
      moreover have "unchanged_outside xs3 ys first lst"
        using b by (intro unchanged_outside_mono[OF f4]) auto
      ultimately show ?thesis using f1 by (blast intro: unchanged_outside_trans)
    qed
    \<comment> \<open>permutation\<close>
    have perm: "mset (range_of ys first lst) = mset (range_of xs first lst)"
    proof -
      have "mset (range_of ys first lst) = mset (range_of xs3 first lst)"
        using f4 perm4 b less.prems len3 by (intro mset_range_of_widen[of first m2 lst lst]) auto
      also have "\<dots> = mset (range_of xs2 first lst)"
        using f3 perm3 b less.prems len2 by (intro mset_range_of_widen[of first first m1 lst]) auto
      also have "\<dots> = mset (range_of xs1 first lst)"
        using f2 perm2 b less.prems len1 by (intro mset_range_of_widen[of first m1 lst lst]) auto
      finally show ?thesis using perm1 by simp
    qed
    \<comment> \<open>the three blocks of the result\<close>
    have ys_low_eq: "ys ! j = xs3 ! j" if "j < m2" for j
      using that f4 b less.prems len3 by (auto simp: unchanged_outside_def)
    have xs3_high_eq: "xs3 ! j = xs2 ! j" if "m1 \<le> j" "j < lst" for j
      using that f3 b less.prems len2 by (auto simp: unchanged_outside_def)
    have low3: "xs3 ! j < pivot" if "first \<le> j" "j < m1" for j
    proof -
      have "xs3 ! j \<in> set (range_of xs3 first m1)"
        using that b less.prems len3 by (subst in_set_range_of) auto
      then have "xs3 ! j \<in> set (range_of xs2 first m1)"
        using mset_eq_setD[OF perm3] by simp
      then obtain i where "first \<le> i" "i < m1" "xs3 ! j = xs2 ! i"
        using b less.prems len2 by (auto simp: in_set_range_of)
      with low show ?thesis by auto
    qed
    have low': "\<forall>j. first \<le> j \<and> j < m1 \<longrightarrow> ys ! j < pivot"
      using low3 ys_low_eq lt by auto
    have mid': "\<forall>j. m1 \<le> j \<and> j < m2 \<longrightarrow> \<not> ys ! j < pivot \<and> \<not> pivot < ys ! j"
      using mid ys_low_eq xs3_high_eq b by auto
    have high': "\<forall>j. m2 \<le> j \<and> j < lst \<longrightarrow> pivot < ys ! j"
    proof (intro allI impI)
      fix j assume j: "m2 \<le> j \<and> j < lst"
      then have "ys ! j \<in> set (range_of ys m2 lst)"
        using less.prems len4 by (subst in_set_range_of) auto
      then have "ys ! j \<in> set (range_of xs3 m2 lst)"
        using mset_eq_setD[OF perm4] by simp
      then obtain i where i: "m2 \<le> i" "i < lst" "ys ! j = xs3 ! i"
        using less.prems len3 by (auto simp: in_set_range_of)
      then have "xs3 ! i = xs2 ! i" using xs3_high_eq b by auto
      with i high show "pivot < ys ! j" by auto
    qed
    have "sorted_wrt (\<le>) (range_of ys first lst)" if tot: "\<forall>x y::'a. x \<le> y \<or> y \<le> x"
    proof -
      have "range_of ys first m1 = range_of xs3 first m1"
        using ys_low_eq lt b less.prems len3 len4 by (intro range_of_eqI) auto
      then have "sorted_wrt (\<le>) (range_of ys first m1)" using sorted3[OF tot] by simp
      then show ?thesis
        using tot b less.prems len4 sorted4[OF tot] low' mid' high'
        by (intro sorted_wrt_three_blocks[of first m1 m2 lst ys pivot]) auto
    qed
    with res frame perm show ?thesis by simp
  qed
qed

subsection \<open>Merge sort\<close>

lemma mset_merge_runs: "mset (merge_runs xs ys) = mset xs + mset ys"
  by (induction xs ys rule: merge_runs.induct) auto

lemma set_merge_runs: "set (merge_runs xs ys) = set xs \<union> set ys"
  by (induction xs ys rule: merge_runs.induct) auto

lemma length_merge_runs: "length (merge_runs xs ys) = length xs + length ys"
  by (induction xs ys rule: merge_runs.induct) auto

lemma sorted_merge_runs:
  fixes xs ys :: "'a::preorder list"
  assumes tot: "\<forall>x y::'a. x \<le> y \<or> y \<le> x"
  shows "sorted_wrt (\<le>) xs \<Longrightarrow> sorted_wrt (\<le>) ys \<Longrightarrow> sorted_wrt (\<le>) (merge_runs xs ys)"
proof (induction xs ys rule: merge_runs.induct)
  case (3 x xs y ys)
  show ?case
  proof (cases "y < x")
    case True
    then have "y \<le> x" by (rule less_imp_le)
    then have "\<forall>z \<in> set (x # xs). y \<le> z" using "3.prems"(1) by (auto intro: order_trans)
    with True 3 show ?thesis by (auto simp: set_merge_runs)
  next
    case False
    then have "x \<le> y" using not_less_total[OF tot] by blast
    then have "\<forall>z \<in> set (y # ys). x \<le> z" using "3.prems"(2) by (auto intro: order_trans)
    with False 3 show ?thesis by (auto simp: set_merge_runs)
  qed
qed simp_all

lemma filter_equivalent_merge_runs:
  fixes xs ys :: "'a::preorder list"
  assumes tot: "\<forall>x y::'a. x \<le> y \<or> y \<le> x"
  shows "sorted_wrt (\<le>) xs \<Longrightarrow> sorted_wrt (\<le>) ys \<Longrightarrow>
         filter (equivalent z) (merge_runs xs ys) = filter (equivalent z) xs @ filter (equivalent z) ys"
proof (induction xs ys rule: merge_runs.induct)
  case (3 x xs y ys)
  show ?case
  proof (cases "y < x")
    case True
    have rec: "filter (equivalent z) (merge_runs (x # xs) ys) =
               filter (equivalent z) (x # xs) @ filter (equivalent z) ys"
      using True 3 by simp
    show ?thesis
    proof (cases "equivalent z y")
      case eq: True
      have "\<not> equivalent z x'" if "x' \<in> set (x # xs)" for x'
      proof -
        have "x \<le> x'" using that "3.prems"(1) by auto
        with True have yx: "y < x'" by (rule less_le_trans)
        have "z \<le> y" using eq not_less_total[OF tot] by (simp add: equivalent_def)
        then have "z < x'" using yx by (rule le_less_trans)
        then show ?thesis by (simp add: equivalent_def)
      qed
      then have "filter (equivalent z) (x # xs) = []" by (simp only: filter_empty_conv) blast
      with True rec eq show ?thesis by simp
    next
      case False
      with True rec show ?thesis by simp
    qed
  next
    case False
    with 3 show ?thesis by simp
  qed
qed simp_all

lemma inplace_merge_spec:
  assumes "first \<le> middle" "middle \<le> lst" "lst \<le> length xs"
  shows "unchanged_outside xs (inplace_merge xs first middle lst) first lst"
    and "range_of (inplace_merge xs first middle lst) first lst =
         merge_runs (range_of xs first middle) (range_of xs middle lst)"
proof -
  let ?m = "merge_runs (range_of xs first middle) (range_of xs middle lst)"
  have lm: "length ?m = lst - first"
    using assms by (simp add: length_merge_runs length_range_of)
  have lt: "length (take first xs) = first" using assms by simp
  show "range_of (inplace_merge xs first middle lst) first lst = ?m"
    using lm lt by (simp add: inplace_merge_def range_of_def)
  have len: "length (inplace_merge xs first middle lst) = length xs"
    using lm assms by (simp add: inplace_merge_def)
  moreover have "inplace_merge xs first middle lst ! j = xs ! j" if "j < first" for j
    using that lt by (simp add: inplace_merge_def nth_append)
  moreover have "inplace_merge xs first middle lst ! j = xs ! j" if "lst \<le> j" "j < length xs" for j
  proof -
    have "inplace_merge xs first middle lst = (take first xs @ ?m) @ drop lst xs"
      by (simp add: inplace_merge_def)
    moreover have "length (take first xs @ ?m) = lst" using lm lt assms by simp
    ultimately have "inplace_merge xs first middle lst ! j = drop lst xs ! (j - lst)"
      using that by (simp only: nth_append) simp
    then show ?thesis using that assms by simp
  qed
  ultimately show "unchanged_outside xs (inplace_merge xs first middle lst) first lst"
    by (auto simp: unchanged_outside_def)
qed

lemma merge_sort_spec:
  fixes xs :: "'a::preorder list"
  assumes "lst \<le> length xs"
  shows "unchanged_outside xs (merge_sort xs first lst) first lst \<and>
         mset (range_of (merge_sort xs first lst) first lst) = mset (range_of xs first lst) \<and>
         ((\<forall>x y::'a. x \<le> y \<or> y \<le> x) \<longrightarrow>
            sorted_wrt (\<le>) (range_of (merge_sort xs first lst) first lst) \<and>
            order_of_equals_kept (range_of xs first lst) (range_of (merge_sort xs first lst) first lst))"
  using assms
proof (induction xs first lst rule: merge_sort.induct)
  case (1 xs first lst)
  show ?case
  proof (cases "lst - first > 1")
    case False
    then have same: "merge_sort xs first lst = xs" by (subst merge_sort.simps) simp
    have "length (range_of xs first lst) \<le> 1" using False by (simp add: range_of_def)
    then have "sorted_wrt (\<le>) (range_of xs first lst)"
      by (cases "range_of xs first lst") (auto simp: le_Suc_eq)
    then show ?thesis
      by (simp add: same unchanged_outside_refl order_of_equals_kept_def)
  next
    case True
    define middle where "middle = first + (lst - first) div 2"
    define xs1 where "xs1 = merge_sort xs first middle"
    define xs2 where "xs2 = merge_sort xs1 middle lst"
    define ys where "ys = inplace_merge xs2 first middle lst"
    have res: "merge_sort xs first lst = ys"
      using True by (subst merge_sort.simps) (simp add: Let_def middle_def xs1_def xs2_def ys_def)
    have b: "first \<le> middle" "middle \<le> lst" using True by (simp_all add: middle_def)
    have ih1: "unchanged_outside xs xs1 first middle \<and>
         mset (range_of xs1 first middle) = mset (range_of xs first middle) \<and>
         ((\<forall>x y::'a. x \<le> y \<or> y \<le> x) \<longrightarrow>
            sorted_wrt (\<le>) (range_of xs1 first middle) \<and>
            order_of_equals_kept (range_of xs first middle) (range_of xs1 first middle))"
      unfolding xs1_def
    proof (rule "1.IH"(1)[OF True middle_def])
      show "middle \<le> length xs" using b "1.prems" by simp
    qed
    have f1: "unchanged_outside xs xs1 first middle"
      and perm1: "mset (range_of xs1 first middle) = mset (range_of xs first middle)"
      using ih1 by blast+
    have len1: "length xs1 = length xs" using f1 by (simp add: unchanged_outside_def)
    have ih2: "unchanged_outside xs1 xs2 middle lst \<and>
         mset (range_of xs2 middle lst) = mset (range_of xs1 middle lst) \<and>
         ((\<forall>x y::'a. x \<le> y \<or> y \<le> x) \<longrightarrow>
            sorted_wrt (\<le>) (range_of xs2 middle lst) \<and>
            order_of_equals_kept (range_of xs1 middle lst) (range_of xs2 middle lst))"
      unfolding xs2_def
    proof (rule "1.IH"(2)[OF True middle_def xs1_def])
      show "lst \<le> length xs1" using "1.prems" len1 by simp
    qed
    have f2: "unchanged_outside xs1 xs2 middle lst"
      and perm2: "mset (range_of xs2 middle lst) = mset (range_of xs1 middle lst)"
      using ih2 by blast+
    have len2: "length xs2 = length xs" using f2 len1 by (simp add: unchanged_outside_def)
    have right1: "range_of xs1 middle lst = range_of xs middle lst"
      using f1 b "1.prems" len1 by (intro range_of_eqI) (auto simp: unchanged_outside_def)
    have left2: "range_of xs2 first middle = range_of xs1 first middle"
      using f2 b "1.prems" len1 len2 by (intro range_of_eqI) (auto simp: unchanged_outside_def)
    have merged: "range_of ys first lst =
                  merge_runs (range_of xs2 first middle) (range_of xs2 middle lst)"
      unfolding ys_def using b "1.prems" len2 by (intro inplace_merge_spec(2)) auto
    have split: "range_of xs first lst = range_of xs first middle @ range_of xs middle lst"
      using b by (rule range_of_split)
    have frame: "unchanged_outside xs ys first lst"
    proof -
      have "unchanged_outside xs2 ys first lst"
        unfolding ys_def using b "1.prems" len2 by (intro inplace_merge_spec(1)) auto
      moreover have "unchanged_outside xs xs1 first lst"
        using b by (intro unchanged_outside_mono[OF f1]) auto
      moreover have "unchanged_outside xs1 xs2 first lst"
        using b by (intro unchanged_outside_mono[OF f2]) auto
      ultimately show ?thesis by (blast intro: unchanged_outside_trans)
    qed
    have perm: "mset (range_of ys first lst) = mset (range_of xs first lst)"
    proof -
      have "mset (range_of ys first lst) = mset (range_of xs2 first middle) + mset (range_of xs2 middle lst)"
        by (simp only: merged mset_merge_runs)
      also have "\<dots> = mset (range_of xs first middle) + mset (range_of xs middle lst)"
        by (simp only: left2 perm1 perm2 right1)
      also have "\<dots> = mset (range_of xs first lst)"
        by (simp only: split mset_append)
      finally show ?thesis .
    qed
    have "sorted_wrt (\<le>) (range_of ys first lst) \<and>
          order_of_equals_kept (range_of xs first lst) (range_of ys first lst)"
      if tot: "\<forall>x y::'a. x \<le> y \<or> y \<le> x"
    proof -
      have s1': "sorted_wrt (\<le>) (range_of xs1 first middle)"
        and k1': "order_of_equals_kept (range_of xs first middle) (range_of xs1 first middle)"
        using ih1 tot by blast+
      have s2: "sorted_wrt (\<le>) (range_of xs2 middle lst)"
        and k2': "order_of_equals_kept (range_of xs1 middle lst) (range_of xs2 middle lst)"
        using ih2 tot by blast+
      have s1: "sorted_wrt (\<le>) (range_of xs2 first middle)" using s1' by (simp only: left2)
      have k1: "filter (equivalent z) (range_of xs2 first middle) =
                filter (equivalent z) (range_of xs first middle)" for z
        using k1' by (simp only: left2 order_of_equals_kept_def)
      have k2: "filter (equivalent z) (range_of xs2 middle lst) =
                filter (equivalent z) (range_of xs middle lst)" for z
        using k2' by (simp only: right1 order_of_equals_kept_def)
      have "sorted_wrt (\<le>) (range_of ys first lst)"
        unfolding merged using s1 s2 by (rule sorted_merge_runs[OF tot])
      moreover have "filter (equivalent z) (range_of ys first lst) =
                     filter (equivalent z) (range_of xs first lst)" for z
        by (simp only: merged filter_equivalent_merge_runs[OF tot s1 s2] k1 k2 split filter_append)
      ultimately show ?thesis by (simp only: order_of_equals_kept_def) simp
    qed
    with frame perm show ?thesis by (simp add: res)
  qed
qed

subsection \<open>Whole sequences and total orders\<close>

lemma range_of_whole: "length ys = n \<Longrightarrow> range_of ys 0 n = ys"
  by (simp add: range_of_def)

lemma linorder_total: "\<forall>x y::'a::linorder. x \<le> y \<or> y \<le> x"
  by (simp add: linear)

lemma tagged_total: "\<forall>x y::('k::linorder, 't) tagged. x \<le> y \<or> y \<le> x"
  by (simp add: less_eq_tagged_def linear)

lemma equivalent_tagged:
  fixes a b :: "('k::linorder, 't) tagged"
  shows "equivalent a b \<longleftrightarrow> key a = key b"
  by (auto simp: equivalent_def less_tagged_def)

lemma selection_sort_whole:
  fixes xs :: "'a::preorder list"
  shows "\<exists>ys. selection_sort xs 0 (length xs) = Some ys \<and> length ys = length xs \<and>
              mset ys = mset xs \<and>
              ((\<forall>x y::'a. x \<le> y \<or> y \<le> x) \<longrightarrow> sorted_wrt (\<le>) ys)"
proof -
  from selection_sort_loop_spec[of 0 "length xs" xs]
  obtain ys where ys: "selection_sort_loop xs 0 (length xs) = Some ys"
    and frame: "unchanged_outside xs ys 0 (length xs)"
    and perm: "mset (range_of ys 0 (length xs)) = mset (range_of xs 0 (length xs))"
    and srt: "(\<forall>x y::'a. x \<le> y \<or> y \<le> x) \<longrightarrow> sorted_wrt (\<le>) (range_of ys 0 (length xs))"
    by auto
  have len: "length ys = length xs" using frame by (simp add: unchanged_outside_def)
  show ?thesis
    using ys perm srt len by (simp add: selection_sort_def range_of_whole)
qed

lemma quicksort_whole:
  fixes xs :: "'a::preorder list"
  shows "\<exists>ys. quicksort xs 0 (length xs) = Some ys \<and> length ys = length xs \<and>
              mset ys = mset xs \<and>
              ((\<forall>x y::'a. x \<le> y \<or> y \<le> x) \<longrightarrow> sorted_wrt (\<le>) ys)"
proof -
  from quicksort_spec[of 0 "length xs" xs]
  obtain ys where ys: "quicksort xs 0 (length xs) = Some ys"
    and frame: "unchanged_outside xs ys 0 (length xs)"
    and perm: "mset (range_of ys 0 (length xs)) = mset (range_of xs 0 (length xs))"
    and srt: "(\<forall>x y::'a. x \<le> y \<or> y \<le> x) \<longrightarrow> sorted_wrt (\<le>) (range_of ys 0 (length xs))"
    by auto
  have len: "length ys = length xs" using frame by (simp add: unchanged_outside_def)
  show ?thesis
    using ys perm srt len by (simp add: range_of_whole)
qed

lemma merge_sort_whole:
  fixes xs :: "'a::preorder list"
  shows "length (merge_sort xs 0 (length xs)) = length xs \<and>
         mset (merge_sort xs 0 (length xs)) = mset xs \<and>
         ((\<forall>x y::'a. x \<le> y \<or> y \<le> x) \<longrightarrow>
            sorted_wrt (\<le>) (merge_sort xs 0 (length xs)) \<and>
            order_of_equals_kept xs (merge_sort xs 0 (length xs)))"
proof -
  let ?ys = "merge_sort xs 0 (length xs)"
  from merge_sort_spec[of "length xs" xs 0]
  have frame: "unchanged_outside xs ?ys 0 (length xs)"
    and perm: "mset (range_of ?ys 0 (length xs)) = mset (range_of xs 0 (length xs))"
    and srt: "(\<forall>x y::'a. x \<le> y \<or> y \<le> x) \<longrightarrow>
            sorted_wrt (\<le>) (range_of ?ys 0 (length xs)) \<and>
            order_of_equals_kept (range_of xs 0 (length xs)) (range_of ?ys 0 (length xs))"
    by auto
  have len: "length ?ys = length xs" using frame by (simp add: unchanged_outside_def)
  show ?thesis
    using perm srt len by (simp add: range_of_whole)
qed

section \<open>The sorts are correct\<close>

text \<open>
  C1. For every finite sequence of a totally ordered element type, each of
  \<open>selection_sort\<close>, \<open>quicksort\<close> and \<open>merge_sort\<close>, called on the range that covers
  the whole sequence, returns, and leaves the sequence non-descending and a permutation
  of what it was.
\<close>

theorem sorts_sorted_permutation:
  fixes xs :: "'a::linorder list"
  shows "(\<exists>ys. selection_sort xs 0 (length xs) = Some ys \<and> sorted ys \<and> mset ys = mset xs) \<and>
         (\<exists>ys. quicksort xs 0 (length xs) = Some ys \<and> sorted ys \<and> mset ys = mset xs) \<and>
         sorted (merge_sort xs 0 (length xs)) \<and> mset (merge_sort xs 0 (length xs)) = mset xs"
  using selection_sort_whole[of xs] quicksort_whole[of xs] merge_sort_whole[of xs] linorder_total
  by blast

theorem sorts_sorted_permutation_witness:
  "selection_sort [5, 7, 4, 2, 8, 6, 1, 9, 0, 3 :: int] 0 10 = Some [0, 1, 2, 3, 4, 5, 6, 7, 8, 9] \<and>
   quicksort [5, 7, 4, 2, 8, 6, 1, 9, 0, 3 :: int] 0 10 = Some [0, 1, 2, 3, 4, 5, 6, 7, 8, 9] \<and>
   merge_sort [5, 7, 4, 2, 8, 6, 1, 9, 0, 3 :: int] 0 10 = [0, 1, 2, 3, 4, 5, 6, 7, 8, 9] \<and>
   sorted [0, 1, 2, 3, 4, 5, 6, 7, 8, 9 :: int] \<and>
   mset [0, 1, 2, 3, 4, 5, 6, 7, 8, 9 :: int] = mset [5, 7, 4, 2, 8, 6, 1, 9, 0, 3]"
proof -
  have s: "selection_sort [5, 7, 4, 2, 8, 6, 1, 9, 0, 3 :: int] 0 10 = Some [0, 1, 2, 3, 4, 5, 6, 7, 8, 9]"
    by code_simp
  have q: "quicksort [5, 7, 4, 2, 8, 6, 1, 9, 0, 3 :: int] 0 10 = Some [0, 1, 2, 3, 4, 5, 6, 7, 8, 9]"
    by code_simp
  have m: "merge_sort [5, 7, 4, 2, 8, 6, 1, 9, 0, 3 :: int] 0 10 = [0, 1, 2, 3, 4, 5, 6, 7, 8, 9]"
    by code_simp
  from sorts_sorted_permutation[of "[5, 7, 4, 2, 8, 6, 1, 9, 0, 3 :: int]"] s q m
  show ?thesis by simp
qed

section \<open>Stability\<close>

text \<open>
  C2. \<open>merge_sort\<close> is stable. The elements carry a key, which \<^verbatim>\<open>operator<\<close>
  compares, and a tag, which it does not look at. For every sequence of such elements
  and every key \<open>k\<close>, the elements with key \<open>k\<close> come out of \<open>merge_sort\<close> in the
  order in which they went in.
\<close>

theorem merge_sort_stable:
  fixes xs :: "('k::linorder, 't) tagged list"
  shows "filter (\<lambda>e. key e = k) (merge_sort xs 0 (length xs)) = filter (\<lambda>e. key e = k) xs"
proof -
  have "order_of_equals_kept xs (merge_sort xs 0 (length xs))"
    using merge_sort_whole[of xs] tagged_total by blast
  then have "filter (equivalent (Tagged k undefined)) (merge_sort xs 0 (length xs)) =
             filter (equivalent (Tagged k undefined)) xs"
    by (simp only: order_of_equals_kept_def)
  moreover have "equivalent (Tagged k undefined) = (\<lambda>e :: ('k, 't) tagged. key e = k)"
    by (auto simp: equivalent_tagged)
  ultimately show ?thesis by simp
qed

theorem merge_sort_stable_witness:
  "merge_sort [Tagged (2::nat) ''a'', Tagged 1 ''b'', Tagged 2 ''c'', Tagged 1 ''d'', Tagged 2 ''e''] 0 5
     = [Tagged 1 ''b'', Tagged 1 ''d'', Tagged 2 ''a'', Tagged 2 ''c'', Tagged 2 ''e''] \<and>
   filter (\<lambda>e. key e = 2)
     (merge_sort [Tagged (2::nat) ''a'', Tagged 1 ''b'', Tagged 2 ''c'', Tagged 1 ''d'', Tagged 2 ''e''] 0 5)
     = [Tagged 2 ''a'', Tagged 2 ''c'', Tagged 2 ''e'']"
proof -
  have m: "merge_sort [Tagged (2::nat) ''a'', Tagged 1 ''b'', Tagged 2 ''c'', Tagged 1 ''d'', Tagged 2 ''e''] 0 5
     = [Tagged 1 ''b'', Tagged 1 ''d'', Tagged 2 ''a'', Tagged 2 ''c'', Tagged 2 ''e'']"
    by code_simp
  from merge_sort_stable[of 2 "[Tagged (2::nat) ''a'', Tagged 1 ''b'', Tagged 2 ''c'', Tagged 1 ''d'', Tagged 2 ''e'']"] m
  show ?thesis by simp
qed

text \<open>
  C6. Neither \<open>selection_sort\<close> nor \<open>quicksort\<close> is stable: each has an input on which
  two elements that compare equal come out in the other order. In
  \<open>[(2,a), (2,b), (1,c)]\<close> selection sort exchanges the first element with the minimum,
  which takes \<open>(2,a)\<close> behind \<open>(2,b)\<close>. In \<open>[(1,a), (1,b), (0,c)]\<close> the first
  partition step of quicksort does the same exchange around the pivot \<open>(1,b)\<close>.
\<close>

theorem selection_sort_quicksort_not_stable:
  "(\<exists>xs ys :: (nat, string) tagged list.
      xs = [Tagged 2 ''a'', Tagged 2 ''b'', Tagged 1 ''c''] \<and>
      ys = [Tagged 1 ''c'', Tagged 2 ''b'', Tagged 2 ''a''] \<and>
      selection_sort xs 0 (length xs) = Some ys \<and> \<not> order_of_equals_kept xs ys \<and>
      filter (\<lambda>e. key e = 2) ys \<noteq> filter (\<lambda>e. key e = 2) xs) \<and>
   (\<exists>xs ys :: (nat, string) tagged list.
      xs = [Tagged 1 ''a'', Tagged 1 ''b'', Tagged 0 ''c''] \<and>
      ys = [Tagged 0 ''c'', Tagged 1 ''b'', Tagged 1 ''a''] \<and>
      quicksort xs 0 (length xs) = Some ys \<and> \<not> order_of_equals_kept xs ys \<and>
      filter (\<lambda>e. key e = 1) ys \<noteq> filter (\<lambda>e. key e = 1) xs)"
proof -
  let ?xs = "[Tagged 2 ''a'', Tagged 2 ''b'', Tagged 1 ''c''] :: (nat, string) tagged list"
  let ?ys = "[Tagged 1 ''c'', Tagged 2 ''b'', Tagged 2 ''a''] :: (nat, string) tagged list"
  let ?us = "[Tagged 1 ''a'', Tagged 1 ''b'', Tagged 0 ''c''] :: (nat, string) tagged list"
  let ?vs = "[Tagged 0 ''c'', Tagged 1 ''b'', Tagged 1 ''a''] :: (nat, string) tagged list"
  have s: "selection_sort ?xs 0 (length ?xs) = Some ?ys" by code_simp
  have q: "quicksort ?us 0 (length ?us) = Some ?vs" by code_simp
  have f1: "filter (\<lambda>e. key e = 2) ?ys \<noteq> filter (\<lambda>e. key e = 2) ?xs" by simp
  have f2: "filter (\<lambda>e. key e = 1) ?vs \<noteq> filter (\<lambda>e. key e = 1) ?us" by simp
  have "filter (equivalent (Tagged 2 '''')) ?ys \<noteq> filter (equivalent (Tagged 2 '''')) ?xs"
    by (simp add: equivalent_tagged)
  then have ns: "\<not> order_of_equals_kept ?xs ?ys"
    unfolding order_of_equals_kept_def by blast
  have "filter (equivalent (Tagged 1 '''')) ?vs \<noteq> filter (equivalent (Tagged 1 '''')) ?us"
    by (simp add: equivalent_tagged)
  then have nq: "\<not> order_of_equals_kept ?us ?vs"
    unfolding order_of_equals_kept_def by blast
  show ?thesis using s q ns nq f1 f2 by blast
qed

section \<open>The ordering used\<close>

text \<open>
  C3, as the specification has it: each sort takes an optional comparator, and
  \<open>[5,3,1,4,2]\<close> sorted with a descending comparator is \<open>[5,4,3,2,1]\<close>. The templates
  take two iterators and nothing else; a sequence of integers can only be sorted by
  the order of the integers, and \<open>[5,3,1,4,2]\<close> comes out ascending.
\<close>

theorem comparator_argument_counterexample:
  "selection_sort [5, 3, 1, 4, 2 :: int] 0 5 = Some [1, 2, 3, 4, 5] \<and>
   quicksort [5, 3, 1, 4, 2 :: int] 0 5 = Some [1, 2, 3, 4, 5] \<and>
   merge_sort [5, 3, 1, 4, 2 :: int] 0 5 = [1, 2, 3, 4, 5] \<and>
   selection_sort [5, 3, 1, 4, 2 :: int] 0 5 \<noteq> Some [5, 4, 3, 2, 1] \<and>
   quicksort [5, 3, 1, 4, 2 :: int] 0 5 \<noteq> Some [5, 4, 3, 2, 1] \<and>
   merge_sort [5, 3, 1, 4, 2 :: int] 0 5 \<noteq> [5, 4, 3, 2, 1]"
proof -
  have s: "selection_sort [5, 3, 1, 4, 2 :: int] 0 5 = Some [1, 2, 3, 4, 5]" by code_simp
  have q: "quicksort [5, 3, 1, 4, 2 :: int] 0 5 = Some [1, 2, 3, 4, 5]" by code_simp
  have m: "merge_sort [5, 3, 1, 4, 2 :: int] 0 5 = [1, 2, 3, 4, 5]" by code_simp
  show ?thesis by (simp add: s q m)
qed

text \<open>
  C3, amended: the order is the one of the element type's \<^verbatim>\<open>operator<\<close>. Over an
  element type whose \<^verbatim>\<open>operator<\<close> is the reverse of the order of the integers, each
  of the three sorts takes \<open>[5,3,1,4,2]\<close> to \<open>[5,4,3,2,1]\<close>.
\<close>

theorem sorts_follow_element_order:
  "selection_sort [Desc 5, Desc 3, Desc 1, Desc 4, Desc (2::int)] 0 5
     = Some [Desc 5, Desc 4, Desc 3, Desc 2, Desc 1] \<and>
   quicksort [Desc 5, Desc 3, Desc 1, Desc 4, Desc (2::int)] 0 5
     = Some [Desc 5, Desc 4, Desc 3, Desc 2, Desc 1] \<and>
   merge_sort [Desc 5, Desc 3, Desc 1, Desc 4, Desc (2::int)] 0 5
     = [Desc 5, Desc 4, Desc 3, Desc 2, Desc 1]"
proof -
  have s: "selection_sort [Desc 5, Desc 3, Desc 1, Desc 4, Desc (2::int)] 0 5
     = Some [Desc 5, Desc 4, Desc 3, Desc 2, Desc 1]" by code_simp
  have q: "quicksort [Desc 5, Desc 3, Desc 1, Desc 4, Desc (2::int)] 0 5
     = Some [Desc 5, Desc 4, Desc 3, Desc 2, Desc 1]" by code_simp
  have m: "merge_sort [Desc 5, Desc 3, Desc 1, Desc 4, Desc (2::int)] 0 5
     = [Desc 5, Desc 4, Desc 3, Desc 2, Desc 1]" by code_simp
  show ?thesis using s q m by simp
qed

section \<open>Termination\<close>

text \<open>
  C4. Every call on a valid range returns. \<open>selection_sort\<close> and \<open>quicksort\<close> are
  partial functions in the model, and return a store on every valid range;
  \<open>merge_sort\<close> is a total function, by the termination proof that comes with its
  definition (the range gets shorter at each call), and returns a store of the same
  length. On \<open>[7,7,7,7,7]\<close> the first
  partition step of \<open>quicksort\<close> returns the start of the range and the second its end,
  so both recursive calls are on empty ranges, and the sequence is returned as it was.
\<close>

theorem sorts_terminate:
  fixes xs :: "'a::preorder list"
  assumes "first \<le> lst" "lst \<le> length xs"
  shows "(\<exists>ys. selection_sort xs first lst = Some ys) \<and>
         (\<exists>ys. quicksort xs first lst = Some ys) \<and>
         (\<exists>ys. merge_sort xs first lst = ys \<and> length ys = length xs) \<and>
         partition_fwd (\<lambda>em. em < 7) [7, 7, 7, 7, 7 :: int] 0 5 = Some ([7, 7, 7, 7, 7], 0) \<and>
         partition_fwd (\<lambda>em. \<not> 7 < em) [7, 7, 7, 7, 7 :: int] 0 5 = Some ([7, 7, 7, 7, 7], 5) \<and>
         quicksort [7, 7, 7, 7, 7 :: int] 0 0 = Some [7, 7, 7, 7, 7] \<and>
         quicksort [7, 7, 7, 7, 7 :: int] 5 5 = Some [7, 7, 7, 7, 7] \<and>
         quicksort [7, 7, 7, 7, 7 :: int] 0 5 = Some [7, 7, 7, 7, 7]"
proof -
  have s: "\<exists>ys. selection_sort xs first lst = Some ys"
    using selection_sort_loop_spec[OF assms] by (auto simp: selection_sort_def)
  have q: "\<exists>ys. quicksort xs first lst = Some ys"
    using quicksort_spec[OF assms] by blast
  have p1: "partition_fwd (\<lambda>em. em < 7) [7, 7, 7, 7, 7 :: int] 0 5 = Some ([7, 7, 7, 7, 7], 0)"
    by code_simp
  have p2: "partition_fwd (\<lambda>em. \<not> 7 < em) [7, 7, 7, 7, 7 :: int] 0 5 = Some ([7, 7, 7, 7, 7], 5)"
    by code_simp
  have e1: "quicksort [7, 7, 7, 7, 7 :: int] 0 0 = Some [7, 7, 7, 7, 7]"
    by (subst quicksort.simps) simp
  have e2: "quicksort [7, 7, 7, 7, 7 :: int] 5 5 = Some [7, 7, 7, 7, 7]"
    by (subst quicksort.simps) simp
  have d: "quicksort [7, 7, 7, 7, 7 :: int] 0 5 = Some [7, 7, 7, 7, 7]"
    by code_simp
  have m: "\<exists>ys. merge_sort xs first lst = ys \<and> length ys = length xs"
    using merge_sort_spec[OF assms(2), of first] by (simp add: unchanged_outside_def)
  show ?thesis using s q m p1 p2 e1 e2 d by simp
qed

theorem sorts_terminate_witness:
  "(1::nat) \<le> 4 \<and> 4 \<le> length [9, 3, 1, 2, 8 :: int] \<and>
   (\<exists>ys. selection_sort [9, 3, 1, 2, 8 :: int] 1 4 = Some ys) \<and>
   (\<exists>ys. quicksort [9, 3, 1, 2, 8 :: int] 1 4 = Some ys) \<and>
   (\<exists>ys. merge_sort [9, 3, 1, 2, 8 :: int] 1 4 = ys \<and> length ys = length [9, 3, 1, 2, 8 :: int])"
proof -
  have h: "(1::nat) \<le> 4" "4 \<le> length [9, 3, 1, 2, 8 :: int]" by simp_all
  from sorts_terminate[OF h] h show ?thesis by blast
qed

section \<open>The partition steps of quicksort\<close>

text \<open>
  C5. In a \<open>quicksort\<close> call on a nonempty range, the pivot is the element half the
  distance from \<open>first\<close> to \<open>lst\<close>. After the two partition steps every element of
  \<open>[first, middle1)\<close> is less than the pivot and every element of
  \<open>[middle1, middle2)\<close> is not greater than the pivot, and is the pivot value. The call
  continues with \<open>quicksort\<close> on \<open>[first, middle1)\<close> and then on \<open>[middle2, lst)\<close>, and
  nothing else; the block \<open>[middle1, middle2)\<close> is in the result as the partition
  steps left it.
\<close>

theorem quicksort_three_way_partition:
  fixes xs :: "'a::linorder list"
  assumes "first < lst" "lst \<le> length xs"
  shows "\<exists>pivot xs1 middle1 xs2 middle2 ys.
           distance first lst = Some (lst - first) \<and>
           pivot = xs ! (first + (lst - first) div 2) \<and>
           partition_fwd (\<lambda>em. em < pivot) xs first lst = Some (xs1, middle1) \<and>
           partition_fwd (\<lambda>em. \<not> pivot < em) xs1 middle1 lst = Some (xs2, middle2) \<and>
           first \<le> middle1 \<and> middle1 \<le> middle2 \<and> middle2 \<le> lst \<and>
           (\<forall>j. first \<le> j \<and> j < middle1 \<longrightarrow> xs2 ! j < pivot) \<and>
           (\<forall>j. middle1 \<le> j \<and> j < middle2 \<longrightarrow> \<not> pivot < xs2 ! j \<and> xs2 ! j = pivot) \<and>
           quicksort xs first lst = quicksort xs2 first middle1 \<bind> (\<lambda>xs3. quicksort xs3 middle2 lst) \<and>
           quicksort xs first lst = Some ys \<and>
           (\<forall>j. middle1 \<le> j \<and> j < middle2 \<longrightarrow> ys ! j = xs2 ! j)"
proof -
  define pivot where "pivot = xs ! (first + (lst - first) div 2)"
  from quicksort_partitions[OF assms pivot_def]
  obtain xs1 m1 xs2 m2 where
    part1: "partition_fwd (\<lambda>em. em < pivot) xs first lst = Some (xs1, m1)"
    and part2: "partition_fwd (\<lambda>em. \<not> pivot < em) xs1 m1 lst = Some (xs2, m2)"
    and p1: "partitioned (\<lambda>em. em < pivot) xs xs1 first m1 lst"
    and p2: "partitioned (\<lambda>em. \<not> pivot < em) xs1 xs2 m1 m2 lst"
    and low: "\<forall>j. first \<le> j \<and> j < m1 \<longrightarrow> xs2 ! j < pivot"
    and mid: "\<forall>j. m1 \<le> j \<and> j < m2 \<longrightarrow> \<not> xs2 ! j < pivot \<and> \<not> pivot < xs2 ! j"
    and unfold: "quicksort xs first lst = quicksort xs2 first m1 \<bind> (\<lambda>xs3. quicksort xs3 m2 lst)"
    by blast
  have b: "first \<le> m1" "m1 \<le> lst" "m1 \<le> m2" "m2 \<le> lst"
    using p1 p2 by (simp_all add: partitioned_def)
  have len2: "length xs2 = length xs"
    using p1 p2 by (simp add: partitioned_length)
  from quicksort_spec[of first m1 xs2] b assms len2
  obtain xs3 where q1: "quicksort xs2 first m1 = Some xs3"
    and f3: "unchanged_outside xs2 xs3 first m1" by auto
  have len3: "length xs3 = length xs" using f3 len2 by (simp add: unchanged_outside_def)
  from quicksort_spec[of m2 lst xs3] b assms len3
  obtain ys where q2: "quicksort xs3 m2 lst = Some ys"
    and f4: "unchanged_outside xs3 ys m2 lst" by auto
  have res: "quicksort xs first lst = Some ys" using unfold q1 q2 by simp
  have block: "\<forall>j. m1 \<le> j \<and> j < m2 \<longrightarrow> ys ! j = xs2 ! j"
  proof (intro allI impI)
    fix j assume j: "m1 \<le> j \<and> j < m2"
    then have "ys ! j = xs3 ! j"
      using f4 b assms len3 by (auto simp: unchanged_outside_def)
    also have "\<dots> = xs2 ! j"
      using j f3 b assms len2 by (auto simp: unchanged_outside_def)
    finally show "ys ! j = xs2 ! j" .
  qed
  have mid': "\<forall>j. m1 \<le> j \<and> j < m2 \<longrightarrow> \<not> pivot < xs2 ! j \<and> xs2 ! j = pivot"
    using mid by (auto simp: not_less_iff_gr_or_eq)
  have d: "distance first lst = Some (lst - first)"
    using assms by (simp add: distance_eq)
  show ?thesis
    using d pivot_def part1 part2 b low mid' unfold res block by blast
qed

theorem quicksort_three_way_partition_witness:
  "(0::nat) < 7 \<and> 7 \<le> length [4, 2, 9, 4, 1, 4, 7 :: int] \<and>
   [4, 2, 9, 4, 1, 4, 7 :: int] ! (0 + (7 - 0) div 2) = 4 \<and>
   partition_fwd (\<lambda>em. em < 4) [4, 2, 9, 4, 1, 4, 7 :: int] 0 7 = Some ([2, 1, 9, 4, 4, 4, 7], 2) \<and>
   partition_fwd (\<lambda>em. \<not> 4 < em) [2, 1, 9, 4, 4, 4, 7 :: int] 2 7 = Some ([2, 1, 4, 4, 4, 9, 7], 5) \<and>
   quicksort [4, 2, 9, 4, 1, 4, 7 :: int] 0 7 = Some [1, 2, 4, 4, 4, 7, 9] \<and>
   (\<exists>pivot xs1 middle1 xs2 middle2 ys.
      pivot = [4, 2, 9, 4, 1, 4, 7 :: int] ! (0 + (7 - 0) div 2) \<and>
      partition_fwd (\<lambda>em. em < pivot) [4, 2, 9, 4, 1, 4, 7] 0 7 = Some (xs1, middle1) \<and>
      partition_fwd (\<lambda>em. \<not> pivot < em) xs1 middle1 7 = Some (xs2, middle2) \<and>
      (\<forall>j. 0 \<le> j \<and> j < middle1 \<longrightarrow> xs2 ! j < pivot) \<and>
      (\<forall>j. middle1 \<le> j \<and> j < middle2 \<longrightarrow> \<not> pivot < xs2 ! j \<and> xs2 ! j = pivot) \<and>
      quicksort [4, 2, 9, 4, 1, 4, 7] 0 7 = Some ys \<and>
      (\<forall>j. middle1 \<le> j \<and> j < middle2 \<longrightarrow> ys ! j = xs2 ! j))"
proof -
  have p1: "partition_fwd (\<lambda>em. em < 4) [4, 2, 9, 4, 1, 4, 7 :: int] 0 7 = Some ([2, 1, 9, 4, 4, 4, 7], 2)"
    by code_simp
  have p2: "partition_fwd (\<lambda>em. \<not> 4 < em) [2, 1, 9, 4, 4, 4, 7 :: int] 2 7 = Some ([2, 1, 4, 4, 4, 9, 7], 5)"
    by code_simp
  have q: "quicksort [4, 2, 9, 4, 1, 4, 7 :: int] 0 7 = Some [1, 2, 4, 4, 4, 7, 9]"
    by code_simp
  have h: "(0::nat) < 7" "7 \<le> length [4, 2, 9, 4, 1, 4, 7 :: int]" by simp_all
  from quicksort_three_way_partition[OF h]
  have "\<exists>pivot xs1 middle1 xs2 middle2 ys.
      pivot = [4, 2, 9, 4, 1, 4, 7 :: int] ! (0 + (7 - 0) div 2) \<and>
      partition_fwd (\<lambda>em. em < pivot) [4, 2, 9, 4, 1, 4, 7] 0 7 = Some (xs1, middle1) \<and>
      partition_fwd (\<lambda>em. \<not> pivot < em) xs1 middle1 7 = Some (xs2, middle2) \<and>
      (\<forall>j. 0 \<le> j \<and> j < middle1 \<longrightarrow> xs2 ! j < pivot) \<and>
      (\<forall>j. middle1 \<le> j \<and> j < middle2 \<longrightarrow> \<not> pivot < xs2 ! j \<and> xs2 ! j = pivot) \<and>
      quicksort [4, 2, 9, 4, 1, 4, 7] 0 7 = Some ys \<and>
      (\<forall>j. middle1 \<le> j \<and> j < middle2 \<longrightarrow> ys ! j = xs2 ! j)"
    by blast
  then show ?thesis using p1 p2 q h by simp
qed

text \<open>
  C10. Every \<open>quicksort\<close> call on a nonempty range returns, and it does so through
  the two partition steps and the two recursive calls, which return too. The block
  \<open>[middle1, middle2)\<close> the partition steps produce is never empty: the pivot value is
  in it. So each of the two recursive calls is on a range strictly shorter than
  \<open>[first, lst)\<close>, whatever the input. Only the irreflexivity of \<^verbatim>\<open>operator<\<close> is used.
\<close>

theorem quicksort_equal_block_nonempty:
  fixes xs :: "'a::preorder list"
  assumes "first < lst" "lst \<le> length xs"
  shows "\<exists>xs1 middle1 xs2 middle2 xs3 ys.
           partition_fwd (\<lambda>em. em < xs ! (first + (lst - first) div 2)) xs first lst
             = Some (xs1, middle1) \<and>
           partition_fwd (\<lambda>em. \<not> xs ! (first + (lst - first) div 2) < em) xs1 middle1 lst
             = Some (xs2, middle2) \<and>
           middle1 < middle2 \<and>
           (\<exists>k. middle1 \<le> k \<and> k < middle2 \<and> xs2 ! k = xs ! (first + (lst - first) div 2)) \<and>
           first \<le> middle1 \<and> middle2 \<le> lst \<and>
           middle1 - first < lst - first \<and> lst - middle2 < lst - first \<and>
           quicksort xs first lst = quicksort xs2 first middle1 \<bind> (\<lambda>xs3. quicksort xs3 middle2 lst) \<and>
           quicksort xs2 first middle1 = Some xs3 \<and>
           quicksort xs3 middle2 lst = Some ys \<and>
           quicksort xs first lst = Some ys"
proof -
  from quicksort_partitions[OF assms refl]
  obtain xs1 m1 xs2 m2 where
    part1: "partition_fwd (\<lambda>em. em < xs ! (first + (lst - first) div 2)) xs first lst = Some (xs1, m1)"
    and part2: "partition_fwd (\<lambda>em. \<not> xs ! (first + (lst - first) div 2) < em) xs1 m1 lst = Some (xs2, m2)"
    and p1: "partitioned (\<lambda>em. em < xs ! (first + (lst - first) div 2)) xs xs1 first m1 lst"
    and p2: "partitioned (\<lambda>em. \<not> xs ! (first + (lst - first) div 2) < em) xs1 xs2 m1 m2 lst"
    and lt: "m1 < m2"
    and lands: "\<exists>k. m1 \<le> k \<and> k < m2 \<and> xs2 ! k = xs ! (first + (lst - first) div 2)"
    and unfold: "quicksort xs first lst = quicksort xs2 first m1 \<bind> (\<lambda>xs3. quicksort xs3 m2 lst)"
    by blast
  have b: "first \<le> m1" "m1 \<le> lst" "m2 \<le> lst"
    using p1 p2 by (simp_all add: partitioned_def)
  have dec: "m1 - first < lst - first" "lst - m2 < lst - first"
    using b lt assms by simp_all
  have len2: "length xs2 = length xs"
    using p1 p2 by (simp add: partitioned_length)
  from quicksort_spec[of first m1 xs2] b assms len2
  obtain xs3 where q1: "quicksort xs2 first m1 = Some xs3"
    and f3: "unchanged_outside xs2 xs3 first m1" by auto
  have len3: "length xs3 = length xs" using f3 len2 by (simp add: unchanged_outside_def)
  from quicksort_spec[of m2 lst xs3] b lt assms len3
  obtain ys where q2: "quicksort xs3 m2 lst = Some ys" by auto
  have res: "quicksort xs first lst = Some ys" using unfold q1 q2 by simp
  show ?thesis
    using part1 part2 lt lands b(1,3) dec unfold q1 q2 res by blast
qed

theorem quicksort_equal_block_nonempty_witness:
  "(0::nat) < 5 \<and> 5 \<le> length [3, 1, 2, 5, 4 :: int] \<and>
   [3, 1, 2, 5, 4 :: int] ! (0 + (5 - 0) div 2) = 2 \<and>
   partition_fwd (\<lambda>em. em < 2) [3, 1, 2, 5, 4 :: int] 0 5 = Some ([1, 3, 2, 5, 4], 1) \<and>
   partition_fwd (\<lambda>em. \<not> 2 < em) [1, 3, 2, 5, 4 :: int] 1 5 = Some ([1, 2, 3, 5, 4], 2) \<and>
   quicksort [1, 2, 3, 5, 4 :: int] 0 1 = Some [1, 2, 3, 5, 4] \<and>
   quicksort [1, 2, 3, 5, 4 :: int] 2 5 = Some [1, 2, 3, 4, 5] \<and>
   quicksort [3, 1, 2, 5, 4 :: int] 0 5 = Some [1, 2, 3, 4, 5] \<and>
   (\<exists>xs1 middle1 xs2 middle2 xs3 ys.
      partition_fwd (\<lambda>em. em < [3, 1, 2, 5, 4 :: int] ! (0 + (5 - 0) div 2)) [3, 1, 2, 5, 4] 0 5
        = Some (xs1, middle1) \<and>
      partition_fwd (\<lambda>em. \<not> [3, 1, 2, 5, 4 :: int] ! (0 + (5 - 0) div 2) < em) xs1 middle1 5
        = Some (xs2, middle2) \<and>
      middle1 < middle2 \<and>
      (\<exists>k. middle1 \<le> k \<and> k < middle2 \<and> xs2 ! k = [3, 1, 2, 5, 4 :: int] ! (0 + (5 - 0) div 2)) \<and>
      middle1 - 0 < 5 - 0 \<and> 5 - middle2 < 5 - 0 \<and>
      quicksort xs2 0 middle1 = Some xs3 \<and>
      quicksort xs3 middle2 5 = Some ys \<and>
      quicksort [3, 1, 2, 5, 4 :: int] 0 5 = Some ys)"
proof -
  have h: "(0::nat) < 5" "5 \<le> length [3, 1, 2, 5, 4 :: int]" by simp_all
  have pv: "[3, 1, 2, 5, 4 :: int] ! (0 + (5 - 0) div 2) = 2" by simp
  have p1: "partition_fwd (\<lambda>em. em < 2) [3, 1, 2, 5, 4 :: int] 0 5 = Some ([1, 3, 2, 5, 4], 1)"
    by code_simp
  have p2: "partition_fwd (\<lambda>em. \<not> 2 < em) [1, 3, 2, 5, 4 :: int] 1 5 = Some ([1, 2, 3, 5, 4], 2)"
    by code_simp
  have q1: "quicksort [1, 2, 3, 5, 4 :: int] 0 1 = Some [1, 2, 3, 5, 4]" by code_simp
  have q2: "quicksort [1, 2, 3, 5, 4 :: int] 2 5 = Some [1, 2, 3, 4, 5]" by code_simp
  have q: "quicksort [3, 1, 2, 5, 4 :: int] 0 5 = Some [1, 2, 3, 4, 5]" by code_simp
  from quicksort_equal_block_nonempty[OF h]
  have ex: "\<exists>xs1 middle1 xs2 middle2 xs3 ys.
      partition_fwd (\<lambda>em. em < [3, 1, 2, 5, 4 :: int] ! (0 + (5 - 0) div 2)) [3, 1, 2, 5, 4] 0 5
        = Some (xs1, middle1) \<and>
      partition_fwd (\<lambda>em. \<not> [3, 1, 2, 5, 4 :: int] ! (0 + (5 - 0) div 2) < em) xs1 middle1 5
        = Some (xs2, middle2) \<and>
      middle1 < middle2 \<and>
      (\<exists>k. middle1 \<le> k \<and> k < middle2 \<and> xs2 ! k = [3, 1, 2, 5, 4 :: int] ! (0 + (5 - 0) div 2)) \<and>
      middle1 - 0 < 5 - 0 \<and> 5 - middle2 < 5 - 0 \<and>
      quicksort xs2 0 middle1 = Some xs3 \<and>
      quicksort xs3 middle2 5 = Some ys \<and>
      quicksort [3, 1, 2, 5, 4 :: int] 0 5 = Some ys"
    by blast
  from h pv p1 p2 q1 q2 q ex show ?thesis by blast
qed

section \<open>Frame\<close>

text \<open>
  C7. Each sort changes nothing outside the range it is given: after the call the
  sequence has the length it had, and every element at a position before \<open>first\<close> or
  from \<open>lst\<close> on is the one that was there.
\<close>

theorem sorts_change_only_the_range:
  fixes xs :: "'a::preorder list"
  assumes "first \<le> lst" "lst \<le> length xs"
  shows "(\<exists>ys. selection_sort xs first lst = Some ys \<and> length ys = length xs \<and>
               (\<forall>j < length xs. j < first \<or> lst \<le> j \<longrightarrow> ys ! j = xs ! j)) \<and>
         (\<exists>ys. quicksort xs first lst = Some ys \<and> length ys = length xs \<and>
               (\<forall>j < length xs. j < first \<or> lst \<le> j \<longrightarrow> ys ! j = xs ! j)) \<and>
         length (merge_sort xs first lst) = length xs \<and>
         (\<forall>j < length xs. j < first \<or> lst \<le> j \<longrightarrow> merge_sort xs first lst ! j = xs ! j)"
proof -
  have s: "\<exists>ys. selection_sort xs first lst = Some ys \<and> unchanged_outside xs ys first lst"
    using selection_sort_loop_spec[OF assms] by (auto simp: selection_sort_def)
  have q: "\<exists>ys. quicksort xs first lst = Some ys \<and> unchanged_outside xs ys first lst"
    using quicksort_spec[OF assms] by blast
  have m: "unchanged_outside xs (merge_sort xs first lst) first lst"
    using merge_sort_spec[OF assms(2), of first] by blast
  show ?thesis using s q m unfolding unchanged_outside_def by blast
qed

theorem sorts_change_only_the_range_witness:
  "(1::nat) \<le> 6 \<and> 6 \<le> length [9, 5, 3, 1, 4, 2, 8 :: int] \<and>
   selection_sort [9, 5, 3, 1, 4, 2, 8 :: int] 1 6 = Some [9, 1, 2, 3, 4, 5, 8] \<and>
   quicksort [9, 5, 3, 1, 4, 2, 8 :: int] 1 6 = Some [9, 1, 2, 3, 4, 5, 8] \<and>
   merge_sort [9, 5, 3, 1, 4, 2, 8 :: int] 1 6 = [9, 1, 2, 3, 4, 5, 8] \<and>
   length (merge_sort [9, 5, 3, 1, 4, 2, 8 :: int] 1 6) = length [9, 5, 3, 1, 4, 2, 8 :: int] \<and>
   merge_sort [9, 5, 3, 1, 4, 2, 8 :: int] 1 6 ! 0 = [9, 5, 3, 1, 4, 2, 8] ! 0 \<and>
   merge_sort [9, 5, 3, 1, 4, 2, 8 :: int] 1 6 ! 6 = [9, 5, 3, 1, 4, 2, 8] ! 6"
proof -
  have s: "selection_sort [9, 5, 3, 1, 4, 2, 8 :: int] 1 6 = Some [9, 1, 2, 3, 4, 5, 8]" by code_simp
  have q: "quicksort [9, 5, 3, 1, 4, 2, 8 :: int] 1 6 = Some [9, 1, 2, 3, 4, 5, 8]" by code_simp
  have m: "merge_sort [9, 5, 3, 1, 4, 2, 8 :: int] 1 6 = [9, 1, 2, 3, 4, 5, 8]" by code_simp
  have h: "(1::nat) \<le> 6" "6 \<le> length [9, 5, 3, 1, 4, 2, 8 :: int]" by simp_all
  from sorts_change_only_the_range[OF h]
  have len: "length (merge_sort [9, 5, 3, 1, 4, 2, 8 :: int] 1 6) = length [9, 5, 3, 1, 4, 2, 8 :: int]"
    and frame: "\<forall>j < length [9, 5, 3, 1, 4, 2, 8 :: int]. j < 1 \<or> 6 \<le> j \<longrightarrow>
      merge_sort [9, 5, 3, 1, 4, 2, 8 :: int] 1 6 ! j = [9, 5, 3, 1, 4, 2, 8] ! j"
    by blast+
  from frame have n0: "merge_sort [9, 5, 3, 1, 4, 2, 8 :: int] 1 6 ! 0 = [9, 5, 3, 1, 4, 2, 8] ! 0"
    by (elim allE[of _ 0]) simp
  from frame have n6: "merge_sort [9, 5, 3, 1, 4, 2, 8 :: int] 1 6 ! 6 = [9, 5, 3, 1, 4, 2, 8] ! 6"
    by (elim allE[of _ 6]) simp
  from s q m h len n0 n6 show ?thesis by blast
qed

section \<open>Sorting twice, and sorting with another algorithm\<close>

lemma sorted_wrt_le_unique:
  fixes ys zs :: "'a::preorder list"
  assumes "sorted_wrt (\<le>) ys" "sorted_wrt (\<le>) zs" "mset ys = mset zs"
    and "\<forall>x\<in>set ys. \<forall>y\<in>set ys. x \<le> y \<and> y \<le> x \<longrightarrow> x = y"
  shows "ys = zs"
  using assms
proof (induction ys arbitrary: zs)
  case Nil
  then show ?case by simp
next
  case (Cons y ys)
  from Cons.prems(3) obtain z zs' where zs: "zs = z # zs'" by (cases zs) auto
  have "mset (y # ys) = mset (z # zs')" using Cons.prems(3) zs by simp
  then have sets: "set (y # ys) = set (z # zs')" by (rule mset_eq_setD)
  have zin: "z \<in> set (y # ys)" unfolding sets by simp
  then have yz: "y \<le> z" using Cons.prems(1) by auto
  have "y \<in> set (z # zs')" unfolding sets[symmetric] by simp
  then have zy: "z \<le> y" using Cons.prems(2) zs by auto
  have "y \<in> set (y # ys)" by simp
  with zin yz zy Cons.prems(4) have eq: "y = z" by blast
  have "ys = zs'"
  proof (rule Cons.IH)
    show "sorted_wrt (\<le>) ys" using Cons.prems(1) by simp
    show "sorted_wrt (\<le>) zs'" using Cons.prems(2) zs by simp
    show "mset ys = mset zs'" using Cons.prems(3) zs eq by simp
    show "\<forall>x\<in>set ys. \<forall>y\<in>set ys. x \<le> y \<and> y \<le> x \<longrightarrow> x = y"
      using Cons.prems(4) by simp
  qed
  with eq zs show ?case by simp
qed

text \<open>
  C8. Each sort is idempotent: on a sequence of a totally ordered element type,
  sorting the result of the sort once more returns it unchanged.
\<close>

theorem sorts_idempotent:
  fixes xs :: "'a::linorder list"
  shows "(\<exists>ys. selection_sort xs 0 (length xs) = Some ys \<and>
               selection_sort ys 0 (length ys) = Some ys) \<and>
         (\<exists>ys. quicksort xs 0 (length xs) = Some ys \<and>
               quicksort ys 0 (length ys) = Some ys) \<and>
         merge_sort (merge_sort xs 0 (length xs)) 0 (length (merge_sort xs 0 (length xs)))
           = merge_sort xs 0 (length xs)"
proof -
  have anti: "\<forall>x\<in>set ys. \<forall>y\<in>set ys. x \<le> y \<and> y \<le> x \<longrightarrow> x = y" for ys :: "'a list"
    by auto
  have sel: "\<exists>ys. selection_sort xs 0 (length xs) = Some ys \<and>
               selection_sort ys 0 (length ys) = Some ys"
  proof -
    from selection_sort_whole[of xs] linorder_total
    obtain ys where ys: "selection_sort xs 0 (length xs) = Some ys" "sorted_wrt (\<le>) ys" by blast
    from selection_sort_whole[of ys] linorder_total
    obtain zs where zs: "selection_sort ys 0 (length ys) = Some zs" "mset zs = mset ys"
      "sorted_wrt (\<le>) zs" by blast
    have "ys = zs" using ys(2) zs(3) zs(2)[symmetric] anti by (rule sorted_wrt_le_unique)
    with ys zs show ?thesis by simp
  qed
  have quick: "\<exists>ys. quicksort xs 0 (length xs) = Some ys \<and> quicksort ys 0 (length ys) = Some ys"
  proof -
    from quicksort_whole[of xs] linorder_total
    obtain ys where ys: "quicksort xs 0 (length xs) = Some ys" "sorted_wrt (\<le>) ys" by blast
    from quicksort_whole[of ys] linorder_total
    obtain zs where zs: "quicksort ys 0 (length ys) = Some zs" "mset zs = mset ys"
      "sorted_wrt (\<le>) zs" by blast
    have "ys = zs" using ys(2) zs(3) zs(2)[symmetric] anti by (rule sorted_wrt_le_unique)
    with ys zs show ?thesis by simp
  qed
  have merge: "merge_sort (merge_sort xs 0 (length xs)) 0 (length (merge_sort xs 0 (length xs)))
           = merge_sort xs 0 (length xs)"
  proof -
    let ?ys = "merge_sort xs 0 (length xs)"
    let ?zs = "merge_sort ?ys 0 (length ?ys)"
    have ys: "sorted_wrt (\<le>) ?ys" using merge_sort_whole[of xs] linorder_total by blast
    have zs: "mset ?zs = mset ?ys" "sorted_wrt (\<le>) ?zs"
      using merge_sort_whole[of ?ys] linorder_total by blast+
    have "?ys = ?zs" using ys zs(2) zs(1)[symmetric] anti by (rule sorted_wrt_le_unique)
    then show ?thesis by simp
  qed
  show ?thesis using sel quick merge by blast
qed

theorem sorts_idempotent_witness:
  "selection_sort [3, 1, 2, 1 :: int] 0 4 = Some [1, 1, 2, 3] \<and>
   selection_sort [1, 1, 2, 3 :: int] 0 4 = Some [1, 1, 2, 3] \<and>
   quicksort [3, 1, 2, 1 :: int] 0 4 = Some [1, 1, 2, 3] \<and>
   quicksort [1, 1, 2, 3 :: int] 0 4 = Some [1, 1, 2, 3] \<and>
   merge_sort (merge_sort [3, 1, 2, 1 :: int] 0 (length [3, 1, 2, 1 :: int])) 0
      (length (merge_sort [3, 1, 2, 1 :: int] 0 (length [3, 1, 2, 1 :: int])))
    = [1, 1, 2, 3]"
proof -
  have s: "selection_sort [3, 1, 2, 1 :: int] 0 4 = Some [1, 1, 2, 3]" by code_simp
  have s': "selection_sort [1, 1, 2, 3 :: int] 0 4 = Some [1, 1, 2, 3]" by code_simp
  have q: "quicksort [3, 1, 2, 1 :: int] 0 4 = Some [1, 1, 2, 3]" by code_simp
  have q': "quicksort [1, 1, 2, 3 :: int] 0 4 = Some [1, 1, 2, 3]" by code_simp
  have m: "merge_sort [3, 1, 2, 1 :: int] 0 (length [3, 1, 2, 1 :: int]) = [1, 1, 2, 3]" by code_simp
  from sorts_idempotent[of "[3, 1, 2, 1 :: int]"]
  have "merge_sort (merge_sort [3, 1, 2, 1 :: int] 0 (length [3, 1, 2, 1 :: int])) 0
      (length (merge_sort [3, 1, 2, 1 :: int] 0 (length [3, 1, 2, 1 :: int])))
    = merge_sort [3, 1, 2, 1 :: int] 0 (length [3, 1, 2, 1 :: int])" by blast
  with s s' q q' m show ?thesis by (simp only: simp_thms)
qed

text \<open>
  C9. On every sequence the three sorts return the same multiset of elements; and when
  no two elements of the sequence compare equal, they return the same sequence. The
  element type is any type whose \<^verbatim>\<open>operator<\<close> is a strict weak order, which is what
  the hypothesis says of \<open>(\<le>)\<close>, the complement of the converse of \<open>(<)\<close>.
\<close>

theorem sorts_agree:
  fixes xs :: "'a::preorder list"
  assumes tot: "\<forall>x y::'a. x \<le> y \<or> y \<le> x"
  shows "\<exists>ys zs. selection_sort xs 0 (length xs) = Some ys \<and>
                quicksort xs 0 (length xs) = Some zs \<and>
                mset ys = mset zs \<and> mset zs = mset (merge_sort xs 0 (length xs)) \<and>
                ((\<forall>i j. i < j \<and> j < length xs \<longrightarrow> \<not> equivalent (xs ! i) (xs ! j)) \<longrightarrow>
                   ys = zs \<and> zs = merge_sort xs 0 (length xs))"
proof -
  let ?ms = "merge_sort xs 0 (length xs)"
  from selection_sort_whole[of xs] tot
  obtain ys where ys: "selection_sort xs 0 (length xs) = Some ys" "mset ys = mset xs"
    "sorted_wrt (\<le>) ys" by blast
  from quicksort_whole[of xs] tot
  obtain zs where zs: "quicksort xs 0 (length xs) = Some zs" "mset zs = mset xs"
    "sorted_wrt (\<le>) zs" by blast
  have ms: "mset ?ms = mset xs" "sorted_wrt (\<le>) ?ms"
    using merge_sort_whole[of xs] tot by blast+
  have same: "ys = zs \<and> zs = ?ms"
    if distinct: "\<forall>i j. i < j \<and> j < length xs \<longrightarrow> \<not> equivalent (xs ! i) (xs ! j)"
  proof -
    have anti_xs: "x = y" if "x \<in> set xs" "y \<in> set xs" "x \<le> y" "y \<le> x" for x y
    proof -
      from that(1,2) obtain i j where ij: "i < length xs" "x = xs ! i" "j < length xs" "y = xs ! j"
        by (auto simp: in_set_conv_nth)
      have e: "equivalent x y" "equivalent y x"
        using that(3,4) by (auto simp: equivalent_def less_le_not_le)
      have "i = j"
      proof (rule ccontr)
        assume "i \<noteq> j"
        then consider "i < j" | "j < i" by linarith
        then show False using distinct ij e by cases auto
      qed
      with ij show ?thesis by simp
    qed
    have anti: "\<forall>x\<in>set us. \<forall>y\<in>set us. x \<le> y \<and> y \<le> x \<longrightarrow> x = y"
      if "mset us = mset xs" for us
      using anti_xs mset_eq_setD[OF that] by blast
    have "ys = zs"
      using ys(3) zs(3) _ anti[OF ys(2)] by (rule sorted_wrt_le_unique) (simp add: ys(2) zs(2))
    moreover have "zs = ?ms"
      using zs(3) ms(2) _ anti[OF zs(2)] by (rule sorted_wrt_le_unique) (simp add: zs(2) ms(1))
    ultimately show ?thesis by simp
  qed
  show ?thesis using ys(1,2) zs(1,2) ms(1) same by auto
qed

theorem sorts_agree_witness:
  "(\<forall>x y :: (nat, string) tagged. x \<le> y \<or> y \<le> x) \<and>
   selection_sort [Tagged (3::nat) ''a'', Tagged 1 ''b'', Tagged 2 ''c''] 0 3
     = Some [Tagged 1 ''b'', Tagged 2 ''c'', Tagged 3 ''a''] \<and>
   quicksort [Tagged (3::nat) ''a'', Tagged 1 ''b'', Tagged 2 ''c''] 0 3
     = Some [Tagged 1 ''b'', Tagged 2 ''c'', Tagged 3 ''a''] \<and>
   merge_sort [Tagged (3::nat) ''a'', Tagged 1 ''b'', Tagged 2 ''c''] 0 3
     = [Tagged 1 ''b'', Tagged 2 ''c'', Tagged 3 ''a''] \<and>
   (\<exists>ys zs. selection_sort [Tagged (2::nat) ''a'', Tagged 2 ''b'', Tagged 1 ''c''] 0
               (length [Tagged (2::nat) ''a'', Tagged 2 ''b'', Tagged 1 ''c'']) = Some ys \<and>
            quicksort [Tagged (2::nat) ''a'', Tagged 2 ''b'', Tagged 1 ''c''] 0
               (length [Tagged (2::nat) ''a'', Tagged 2 ''b'', Tagged 1 ''c'']) = Some zs \<and>
            mset ys = mset zs \<and>
            mset zs = mset (merge_sort [Tagged (2::nat) ''a'', Tagged 2 ''b'', Tagged 1 ''c''] 0
               (length [Tagged (2::nat) ''a'', Tagged 2 ''b'', Tagged 1 ''c''])))"
proof -
  have t: "\<forall>x y :: (nat, string) tagged. x \<le> y \<or> y \<le> x" by (rule tagged_total)
  have s: "selection_sort [Tagged (3::nat) ''a'', Tagged 1 ''b'', Tagged 2 ''c''] 0 3
     = Some [Tagged 1 ''b'', Tagged 2 ''c'', Tagged 3 ''a'']" by code_simp
  have q: "quicksort [Tagged (3::nat) ''a'', Tagged 1 ''b'', Tagged 2 ''c''] 0 3
     = Some [Tagged 1 ''b'', Tagged 2 ''c'', Tagged 3 ''a'']" by code_simp
  have m: "merge_sort [Tagged (3::nat) ''a'', Tagged 1 ''b'', Tagged 2 ''c''] 0 3
     = [Tagged 1 ''b'', Tagged 2 ''c'', Tagged 3 ''a'']" by code_simp
  from sorts_agree[OF t, of "[Tagged (2::nat) ''a'', Tagged 2 ''b'', Tagged 1 ''c'']"]
  have "\<exists>ys zs. selection_sort [Tagged (2::nat) ''a'', Tagged 2 ''b'', Tagged 1 ''c''] 0
               (length [Tagged (2::nat) ''a'', Tagged 2 ''b'', Tagged 1 ''c'']) = Some ys \<and>
            quicksort [Tagged (2::nat) ''a'', Tagged 2 ''b'', Tagged 1 ''c''] 0
               (length [Tagged (2::nat) ''a'', Tagged 2 ''b'', Tagged 1 ''c'']) = Some zs \<and>
            mset ys = mset zs \<and>
            mset zs = mset (merge_sort [Tagged (2::nat) ''a'', Tagged 2 ''b'', Tagged 1 ''c''] 0
               (length [Tagged (2::nat) ''a'', Tagged 2 ''b'', Tagged 1 ''c'']))"
    by blast
  with t s q m show ?thesis by (simp only: simp_thms)
qed

end
